theory Spec2Isabelle
  imports Main "HOL-Library.Word"
begin

section \<open>Go strings and white space\<close>

text \<open>
  A Go string is a sequence of bytes, modelled as a \<open>string\<close> (a list of 8-bit
  characters). Package unicode's \<open>IsSpace\<close>, used by \<open>strings.TrimSpace\<close>, and the
  white-space table of package fmt, used by \<open>fmt.Scanf\<close>, name the same code points:
  U+0009 to U+000D, U+0020, U+0085, U+00A0, U+1680, U+2000 to U+200A, U+2028, U+2029,
  U+202F, U+205F and U+3000. \<open>spaceLen s\<close> is the number of bytes of the white-space
  code point whose UTF-8 encoding starts \<open>s\<close>, and 0 when \<open>s\<close> starts with
  anything else.
\<close>

definition byte :: "char \<Rightarrow> nat" where
  "byte c = of_char c"

definition asciiSpace :: "char \<Rightarrow> bool" where
  "asciiSpace c \<longleftrightarrow> byte c = 0x20 \<or> (0x09 \<le> byte c \<and> byte c \<le> 0x0D)"

definition space2 :: "char \<Rightarrow> char \<Rightarrow> bool" where
  "space2 c d \<longleftrightarrow> byte c = 0xC2 \<and> (byte d = 0x85 \<or> byte d = 0xA0)"

definition space3 :: "char \<Rightarrow> char \<Rightarrow> char \<Rightarrow> bool" where
  "space3 c d e \<longleftrightarrow>
     (byte c = 0xE1 \<and> byte d = 0x9A \<and> byte e = 0x80) \<or>
     (byte c = 0xE2 \<and> byte d = 0x80 \<and>
        ((0x80 \<le> byte e \<and> byte e \<le> 0x8A) \<or> byte e = 0xA8 \<or> byte e = 0xA9 \<or> byte e = 0xAF)) \<or>
     (byte c = 0xE2 \<and> byte d = 0x81 \<and> byte e = 0x9F) \<or>
     (byte c = 0xE3 \<and> byte d = 0x80 \<and> byte e = 0x80)"

fun spaceLen :: "string \<Rightarrow> nat" where
  "spaceLen (c # d # e # _) =
     (if asciiSpace c then 1 else if space2 c d then 2 else if space3 c d e then 3 else 0)"
| "spaceLen [c, d] = (if asciiSpace c then 1 else if space2 c d then 2 else 0)"
| "spaceLen [c] = (if asciiSpace c then 1 else 0)"
| "spaceLen [] = 0"

text \<open>
  The white-space code point that ends \<open>s\<close>, found as Go's
  \<open>utf8.DecodeLastRuneInString\<close> finds it: the last byte alone when it is ASCII,
  otherwise the encoding that starts at the nearest byte that is not a continuation byte.
\<close>

definition spaceLenEnd :: "string \<Rightarrow> nat" where
  "spaceLenEnd s =
     (let n = length s in
      if 1 \<le> n \<and> spaceLen (drop (n - 1) s) = 1 then 1
      else if 2 \<le> n \<and> spaceLen (drop (n - 2) s) = 2 then 2
      else if 3 \<le> n \<and> spaceLen (drop (n - 3) s) = 3 then 3
      else 0)"

lemma spaceLen_le: "spaceLen s \<le> length s"
  by (cases s rule: spaceLen.cases) simp_all

lemma spaceLenEnd_le: "spaceLenEnd s \<le> length s"
  by (simp add: spaceLenEnd_def Let_def)

function trimLeft :: "string \<Rightarrow> string" where
  "trimLeft s = (if 0 < spaceLen s then trimLeft (drop (spaceLen s) s) else s)"
  by pat_completeness auto
termination
proof (relation "measure length")
  show "wf (measure length)" by simp
next
  fix s :: string
  assume "0 < spaceLen s"
  moreover have "spaceLen s \<le> length s" by (rule spaceLen_le)
  ultimately show "(drop (spaceLen s) s, s) \<in> measure length" by simp
qed

function trimRight :: "string \<Rightarrow> string" where
  "trimRight s =
     (if 0 < spaceLenEnd s then trimRight (take (length s - spaceLenEnd s) s) else s)"
  by pat_completeness auto
termination
proof (relation "measure length")
  show "wf (measure length)" by simp
next
  fix s :: string
  assume "0 < spaceLenEnd s"
  moreover have "spaceLenEnd s \<le> length s" by (rule spaceLenEnd_le)
  ultimately show "(take (length s - spaceLenEnd s) s, s) \<in> measure length" by simp
qed

declare trimLeft.simps [simp del]
declare trimRight.simps [simp del]

text \<open>
  \<open>strings.TrimSpace\<close>: the ASCII fast path of the library and its fall-back
  \<open>TrimFunc(s, unicode.IsSpace)\<close> both remove every leading white-space code point and
  then every trailing one.
\<close>

definition TrimSpace :: "string \<Rightarrow> string" where
  "TrimSpace s = trimRight (trimLeft s)"

text \<open>\<open>spaces s\<close>: \<open>s\<close> is made of white-space code points only.\<close>

function spaces :: "string \<Rightarrow> bool" where
  "spaces s =
     (if s = [] then True
      else if 0 < spaceLen s then spaces (drop (spaceLen s) s)
      else False)"
  by pat_completeness auto
termination
proof (relation "measure length")
  show "wf (measure length)" by simp
next
  fix s :: string
  assume "0 < spaceLen s"
  moreover have "spaceLen s \<le> length s" by (rule spaceLen_le)
  ultimately show "(drop (spaceLen s) s, s) \<in> measure length" by simp
qed

declare spaces.simps [simp del]

text \<open>\<open>cont c\<close>: \<open>c\<close> is a continuation byte of UTF-8.\<close>

definition cont :: "char \<Rightarrow> bool" where
  "cont c \<longleftrightarrow> 0x80 \<le> byte c \<and> byte c < 0xC0"

text \<open>
  UTF-8 as Go's \<open>utf8.DecodeRune\<close> reads it: \<open>runeLen s\<close> is the number of bytes of
  the code point whose valid encoding starts \<open>s\<close> (shortest form only, no surrogates,
  nothing above U+10FFFF), and 0 when \<open>s\<close> is empty or starts with bytes that are no
  valid encoding, which Go decodes as the error rune U+FFFD of width 1.
\<close>

definition rune1 :: "char \<Rightarrow> bool" where
  "rune1 c \<longleftrightarrow> byte c < 0x80"

definition rune2 :: "char \<Rightarrow> char \<Rightarrow> bool" where
  "rune2 c d \<longleftrightarrow> 0xC2 \<le> byte c \<and> byte c \<le> 0xDF \<and> cont d"

definition rune3 :: "char \<Rightarrow> char \<Rightarrow> char \<Rightarrow> bool" where
  "rune3 c d e \<longleftrightarrow>
     cont e \<and>
     ((byte c = 0xE0 \<and> 0xA0 \<le> byte d \<and> byte d \<le> 0xBF) \<or>
      (0xE1 \<le> byte c \<and> byte c \<le> 0xEC \<and> cont d) \<or>
      (byte c = 0xED \<and> 0x80 \<le> byte d \<and> byte d \<le> 0x9F) \<or>
      (0xEE \<le> byte c \<and> byte c \<le> 0xEF \<and> cont d))"

definition rune4 :: "char \<Rightarrow> char \<Rightarrow> char \<Rightarrow> char \<Rightarrow> bool" where
  "rune4 c d e f \<longleftrightarrow>
     cont e \<and> cont f \<and>
     ((byte c = 0xF0 \<and> 0x90 \<le> byte d \<and> byte d \<le> 0xBF) \<or>
      (0xF1 \<le> byte c \<and> byte c \<le> 0xF3 \<and> cont d) \<or>
      (byte c = 0xF4 \<and> 0x80 \<le> byte d \<and> byte d \<le> 0x8F))"

definition runeLen :: "string \<Rightarrow> nat" where
  "runeLen s =
     (if 1 \<le> length s \<and> rune1 (s ! 0) then 1
      else if 2 \<le> length s \<and> rune2 (s ! 0) (s ! 1) then 2
      else if 3 \<le> length s \<and> rune3 (s ! 0) (s ! 1) (s ! 2) then 3
      else if 4 \<le> length s \<and> rune4 (s ! 0) (s ! 1) (s ! 2) (s ! 3) then 4
      else 0)"

text \<open>The encoding of U+FFFD, which Go writes for the error rune.\<close>

definition replacement :: string where
  "replacement = [CHR 0xEF, CHR 0xBF, CHR 0xBD]"

section \<open>Problems and the loader\<close>

record problem =
  question :: string
  answer :: string

text \<open>
  How \<open>RunQuiz1\<close> can end without a score: \<open>exit\<close> prints its message and leaves
  with status 1; an index out of range is a run-time panic (the index and the length of
  the slice).
\<close>

datatype failure = Exit string | IndexOutOfRange nat nat

definition index :: "'a list \<Rightarrow> nat \<Rightarrow> failure + 'a" where
  "index xs i = (if i < length xs then Inr (xs ! i) else Inl (IndexOutOfRange i (length xs)))"

text \<open>
  \<open>parseLines\<close>: \<open>ret\<close> starts as \<open>len(lines)\<close> zero problems; the loop stores the
  \<open>i\<close>-th problem at index \<open>i\<close>. The fields of the composite literal are evaluated
  left to right, so \<open>line[0]\<close> is read before \<open>line[1]\<close>.
\<close>

fun parseLoop :: "nat \<Rightarrow> string list list \<Rightarrow> problem list \<Rightarrow> failure + problem list" where
  "parseLoop i [] ret = Inr ret"
| "parseLoop i (line # rest) ret =
     (case index line 0 of
        Inl e \<Rightarrow> Inl e
      | Inr q \<Rightarrow>
          (case index line 1 of
             Inl e \<Rightarrow> Inl e
           | Inr a \<Rightarrow>
               parseLoop (Suc i) rest
                 (ret[i := \<lparr>question = TrimSpace q, answer = TrimSpace a\<rparr>])))"

definition parseLines :: "string list list \<Rightarrow> failure + problem list" where
  "parseLines lines =
     parseLoop 0 lines (replicate (length lines) \<lparr>question = [], answer = []\<rparr>)"

section \<open>The answer-collection task\<close>

text \<open>
  One call of \<open>fmt.Scanf("%s\n", &answer)\<close> of the Go standard library, on the bytes
  that standard input still holds, by the rules of package fmt: white space before the
  verb is skipped, but a newline there is the error "unexpected newline"; the end of
  input there is an error too. \<open>%s\<close> then reads code points up to the next white
  space and stores their encodings in \<open>answer\<close>: a byte that starts no valid
  encoding is read as the error rune and stored as U+FFFD. The newline of the format
  matches zero or more spaces followed by a newline or the end of input; anything else
  is the error "newline in format does not match input", reported after \<open>answer\<close>
  has been stored.
\<close>

definition newline :: char where
  "newline = CHR 0x0A"

text \<open>
  \<open>blank u\<close>: \<open>u\<close> is the encoding of one white-space code point other than the
  newline.
\<close>

definition blank :: "string \<Rightarrow> bool" where
  "blank u \<longleftrightarrow> u \<noteq> [] \<and> spaceLen u = length u \<and> hd u \<noteq> newline"

function skipSpace :: "string \<Rightarrow> string option" where
  "skipSpace s =
     (if s = [] then Some []
      else if hd s = newline then None
      else if 0 < spaceLen s then skipSpace (drop (spaceLen s) s)
      else Some s)"
  by pat_completeness auto
termination
proof (relation "measure length")
  show "wf (measure length)" by simp
next
  fix s :: string
  assume "0 < spaceLen s"
  moreover have "spaceLen s \<le> length s" by (rule spaceLen_le)
  ultimately show "(drop (spaceLen s) s, s) \<in> measure length" by simp
qed

text \<open>\<open>token\<close> is the word stored, \<open>afterToken\<close> the input left after it.\<close>

function token :: "string \<Rightarrow> string" where
  "token s =
     (if s = [] \<or> 0 < spaceLen s then []
      else if 0 < runeLen s then take (runeLen s) s @ token (drop (runeLen s) s)
      else replacement @ token (tl s))"
  by pat_completeness auto
termination
  by (relation "measure length") auto

function afterToken :: "string \<Rightarrow> string" where
  "afterToken s =
     (if s = [] \<or> 0 < spaceLen s then s
      else if 0 < runeLen s then afterToken (drop (runeLen s) s)
      else afterToken (tl s))"
  by pat_completeness auto
termination
  by (relation "measure length") auto

declare token.simps [simp del]
declare afterToken.simps [simp del]

text \<open>
  \<open>wordRunes s\<close>: \<open>s\<close> is valid UTF-8 and none of its code points is white space.
\<close>

function wordRunes :: "string \<Rightarrow> bool" where
  "wordRunes s =
     (if s = [] then True
      else if 0 < runeLen s \<and> spaceLen s = 0 then wordRunes (drop (runeLen s) s)
      else False)"
  by pat_completeness auto
termination
  by (relation "measure length") auto

declare wordRunes.simps [simp del]

function matchNewline :: "string \<Rightarrow> bool" where
  "matchNewline s =
     (if s = [] then True
      else if hd s = newline then True
      else if 0 < spaceLen s then matchNewline (drop (spaceLen s) s)
      else False)"
  by pat_completeness auto
termination
proof (relation "measure length")
  show "wf (measure length)" by simp
next
  fix s :: string
  assume "0 < spaceLen s"
  moreover have "spaceLen s \<le> length s" by (rule spaceLen_le)
  ultimately show "(drop (spaceLen s) s, s) \<in> measure length" by simp
qed

declare skipSpace.simps [simp del]
declare matchNewline.simps [simp del]

text \<open>The value left in \<open>answer\<close>, and whether \<open>err\<close> is not nil.\<close>

definition Scanf :: "string \<Rightarrow> string \<times> bool" where
  "Scanf input =
     (case skipSpace input of
        None \<Rightarrow> ([], True)
      | Some r \<Rightarrow>
          if r = [] then ([], True)
          else (token r, \<not> matchNewline (afterToken r)))"

text \<open>
  One answer-collection goroutine, as the main loop sees it: after \<open>delay\<close>
  nanoseconds its send on \<open>answerCh\<close> can proceed; \<open>sent\<close> is the value of
  \<open>answer\<close> it sends, \<open>scanErr\<close> says that \<open>Scanf\<close> returned an error, in which
  case the goroutine has printed its diagnostic before sending. The goroutine sends
  \<open>answer\<close> in both cases.
\<close>

record task =
  delay :: nat
  sent :: string
  scanErr :: bool

definition answerTask :: "nat \<Rightarrow> string \<Rightarrow> task" where
  "answerTask d input = \<lparr>delay = d, sent = fst (Scanf input), scanErr = snd (Scanf input)\<rparr>"

section \<open>The timed session\<close>

text \<open>
  \<open>time.Duration(*timeLimit) * time.Second\<close>: a product of 64-bit integers, in
  nanoseconds. A timer of a duration that is not positive fires at once.
\<close>

definition timerDuration :: "64 word \<Rightarrow> 64 word" where
  "timerDuration timeLimit = timeLimit * 1000000000"

definition fireAt :: "64 word \<Rightarrow> nat" where
  "fireAt d = (if sint d \<le> 0 then 0 else nat (sint d))"

text \<open>What the session does that can be observed, in order.\<close>

datatype action =
    NewTimer int
  | PrintProblem nat string
  | PrintScanFailed
  | PrintNewline
  | PrintScore int nat

text \<open>
  The state of the loop: the nanoseconds elapsed since the timer was created (the
  statements of the main goroutine take no time; only waiting does), the counter
  \<open>correct\<close>, and the actions so far.
\<close>

record state =
  elapsed :: nat
  correct :: int
  actions :: "action list"

text \<open>
  The \<open>select\<close> statement, entered at time \<open>t0\<close>. The timer's channel is ready from
  \<open>fire\<close> on; the answer channel is ready once the task's send can proceed, and never
  when no task delivers (standard input stays silent). \<open>select\<close> takes the case that
  is ready first; when both are ready at the same instant Go chooses one of them
  pseudo-randomly, and \<open>pickTimer\<close> is that choice.
\<close>

datatype received = TimerC | AnswerCh task

definition select :: "nat \<Rightarrow> bool \<Rightarrow> nat \<Rightarrow> task option \<Rightarrow> received" where
  "select fire pickTimer t0 tk =
     (case tk of
        None \<Rightarrow> TimerC
      | Some k \<Rightarrow>
          if t0 + delay k < fire then AnswerCh k
          else if fire < t0 + delay k then TimerC
          else if pickTimer then TimerC
          else AnswerCh k)"

text \<open>
  The body of the loop for problem \<open>p\<close> at index \<open>i\<close>: the prompt, then the
  \<open>select\<close>. \<open>timeout\<close> is its timer case and \<open>receive\<close> its answer case, which
  comes after the goroutine's diagnostic when the scan failed. The flag of the result
  says that the body left through \<open>break problemLoop\<close>. In the timer case the
  goroutine is left behind, blocked in its scan or in its send: nothing receives from
  its channel any more, and what it may still print is not among the actions.
\<close>

definition prompt :: "nat \<Rightarrow> problem \<Rightarrow> state \<Rightarrow> state" where
  "prompt i p s = s\<lparr>actions := actions s @ [PrintProblem (i + 1) (question p)]\<rparr>"

definition timeout :: "nat \<Rightarrow> state \<Rightarrow> state" where
  "timeout fire s = s\<lparr>elapsed := max (elapsed s) fire, actions := actions s @ [PrintNewline]\<rparr>"

definition receive :: "problem \<Rightarrow> task \<Rightarrow> state \<Rightarrow> state" where
  "receive p k s =
     s\<lparr>elapsed := elapsed s + delay k,
       correct := (if sent k = answer p then correct s + 1 else correct s),
       actions := actions s @ (if scanErr k then [PrintScanFailed] else [])\<rparr>"

definition iteration :: "nat \<Rightarrow> bool \<Rightarrow> nat \<Rightarrow> problem \<Rightarrow> task option \<Rightarrow> state \<Rightarrow> bool \<times> state" where
  "iteration fire pickTimer i p tk s =
     (case select fire pickTimer (elapsed s) tk of
        TimerC \<Rightarrow> (True, timeout fire (prompt i p s))
      | AnswerCh k \<Rightarrow> (False, receive p k (prompt i p s)))"

fun problemLoop :: "nat \<Rightarrow> (nat \<Rightarrow> bool) \<Rightarrow> nat \<Rightarrow> problem list \<Rightarrow> task list \<Rightarrow> state \<Rightarrow> state" where
  "problemLoop fire pick i [] tasks s = s"
| "problemLoop fire pick i (p # ps) tasks s =
     (case iteration fire (pick i) i p (case tasks of [] \<Rightarrow> None | k # _ \<Rightarrow> Some k) s of
        (True, s') \<Rightarrow> s'
      | (False, s') \<Rightarrow> problemLoop fire pick (Suc i) ps (tl tasks) s')"

text \<open>
  Lines 28 to 53 of \<open>RunQuiz1\<close>: the timer and the counter (\<open>start\<close>), the loop,
  and the score line (\<open>finish\<close>). \<open>tasks\<close> holds the answer-collection task of each
  problem in order (a problem beyond the list gets no answer), \<open>pick i\<close> is the choice
  of \<open>select\<close> at problem \<open>i\<close> should both channels be ready at once.
\<close>

definition start :: "64 word \<Rightarrow> state" where
  "start d = \<lparr>elapsed = 0, correct = 0, actions = [NewTimer (sint d)]\<rparr>"

definition finish :: "problem list \<Rightarrow> state \<Rightarrow> state" where
  "finish problems s = s\<lparr>actions := actions s @ [PrintScore (correct s) (length problems)]\<rparr>"

definition runSession :: "problem list \<Rightarrow> 64 word \<Rightarrow> task list \<Rightarrow> (nat \<Rightarrow> bool) \<Rightarrow> state" where
  "runSession problems timeLimit tasks pick =
     (let d = timerDuration timeLimit
      in finish problems (problemLoop (fireAt d) pick 0 problems tasks (start d)))"

text \<open>
  \<open>RunQuiz1\<close> as a whole: what \<open>os.Open\<close> and \<open>ReadAll\<close> gave, then
  \<open>parseLines\<close>, then the session.
\<close>

datatype csv = OpenFails | ReadAllFails | Lines "string list list"

definition RunQuiz1 :: "string \<Rightarrow> csv \<Rightarrow> 64 word \<Rightarrow> task list \<Rightarrow> (nat \<Rightarrow> bool) \<Rightarrow> failure + state" where
  "RunQuiz1 csvFileName file timeLimit tasks pick =
     (case file of
        OpenFails \<Rightarrow> Inl (Exit (''Failed to open the CSV file: '' @ csvFileName @ [newline]))
      | ReadAllFails \<Rightarrow> Inl (Exit ''Failed to parse the provided CSV file.'')
      | Lines lines \<Rightarrow>
          (case parseLines lines of
             Inl e \<Rightarrow> Inl e
           | Inr problems \<Rightarrow> Inr (runSession problems timeLimit tasks pick)))"

text \<open>The score lines among the actions: the reported \<open>(correct, total)\<close>.\<close>

fun reported :: "action list \<Rightarrow> (int \<times> nat) list" where
  "reported [] = []"
| "reported (PrintScore c n # as) = (c, n) # reported as"
| "reported (a # as) = reported as"

fun prompts :: "action list \<Rightarrow> (nat \<times> string) list" where
  "prompts [] = []"
| "prompts (PrintProblem i q # as) = (i, q) # prompts as"
| "prompts (a # as) = prompts as"

fun timers :: "action list \<Rightarrow> int list" where
  "timers [] = []"
| "timers (NewTimer d # as) = d # timers as"
| "timers (a # as) = timers as"

text \<open>
  The number of answers received among the first \<open>n\<close> problems, when the loop is at
  index \<open>i\<close> and time \<open>t0\<close>: an answer is received when every answer before it was
  and it is ready before the timer fires, or at that instant and \<open>select\<close> takes it.
  \<open>matches\<close> counts the pairs of a problem and a task whose answer sent is the
  expected answer of that problem.
\<close>

fun answered :: "nat \<Rightarrow> (nat \<Rightarrow> bool) \<Rightarrow> nat \<Rightarrow> nat \<Rightarrow> nat \<Rightarrow> task list \<Rightarrow> nat" where
  "answered fire pick i t0 0 tasks = 0"
| "answered fire pick i t0 (Suc n) [] = 0"
| "answered fire pick i t0 (Suc n) (k # ks) =
     (if t0 + delay k < fire \<or> (t0 + delay k = fire \<and> \<not> pick i)
      then Suc (answered fire pick (Suc i) (t0 + delay k) n ks)
      else 0)"

definition matches :: "(problem \<times> task) list \<Rightarrow> int" where
  "matches xs = int (length (filter (\<lambda>(p, k). sent k = answer p) xs))"

text \<open>Two ways \<open>select\<close> may choose throughout a session: always the timer, always the answer.\<close>

definition timerFirst :: "nat \<Rightarrow> bool" where
  "timerFirst i = True"

definition answerFirst :: "nat \<Rightarrow> bool" where
  "answerFirst i = False"

section \<open>White space and \<open>TrimSpace\<close>\<close>

lemma spaceLen_append: "0 < spaceLen a \<Longrightarrow> spaceLen (a @ b) = spaceLen a"
proof (cases a rule: spaceLen.cases)
  case (2 c d)
  assume "0 < spaceLen a"
  with 2 show ?thesis by (cases b) (simp_all split: if_splits)
next
  case (3 c)
  assume "0 < spaceLen a"
  with 3 show ?thesis by (cases b rule: spaceLen.cases) (simp_all split: if_splits)
qed simp_all

lemma spaceLen_prefix: "spaceLen (take (spaceLen s) s) = spaceLen s"
  by (cases s rule: spaceLen.cases) simp_all

lemma spaceLen_take: "spaceLen t = 0 \<Longrightarrow> spaceLen (take k t) = 0"
proof (cases t rule: spaceLen.cases)
  case (1 c d e r)
  assume "spaceLen t = 0"
  with 1 show ?thesis
    by (cases k; cases "k - 1"; cases "k - 2") (simp_all split: if_splits)
next
  case (2 c d)
  assume "spaceLen t = 0"
  with 2 show ?thesis
    by (cases k; cases "k - 1") (simp_all split: if_splits)
next
  case (3 c)
  assume "spaceLen t = 0"
  with 3 show ?thesis by (cases k) (simp_all split: if_splits)
qed simp

lemma spaces_Nil: "spaces []"
  by (simp add: spaces.simps)

lemma spaces_unit: "0 < spaceLen u \<Longrightarrow> spaceLen u = length u \<Longrightarrow> spaces u"
  by (subst spaces.simps) (simp add: spaces_Nil)

lemma spaces_append: "spaces a \<Longrightarrow> spaces b \<Longrightarrow> spaces (a @ b)"
proof (induction a rule: spaces.induct)
  case (1 s)
  show ?case
  proof (cases "s = []")
    case True
    then show ?thesis using "1.prems" by simp
  next
    case False
    with "1.prems"(1) have pos: "0 < spaceLen s" and tail: "spaces (drop (spaceLen s) s)"
      by (auto simp: spaces.simps [of s] split: if_splits)
    have le: "spaceLen s \<le> length s" by (rule spaceLen_le)
    have "spaces (drop (spaceLen s) s @ b)"
      using "1.IH" [OF False pos tail "1.prems"(2)] .
    moreover have "spaceLen (s @ b) = spaceLen s" using pos by (rule spaceLen_append)
    ultimately show ?thesis
      using False pos le by (subst spaces.simps) simp
  qed
qed

lemma trimLeft_decomp: "\<exists>pre. s = pre @ trimLeft s \<and> spaces pre"
proof (induction s rule: trimLeft.induct)
  case (1 s)
  show ?case
  proof (cases "0 < spaceLen s")
    case True
    let ?n = "spaceLen s"
    from "1.IH" [OF True] obtain pre where
      pre: "drop ?n s = pre @ trimLeft (drop ?n s)" "spaces pre" by blast
    have le: "?n \<le> length s" by (rule spaceLen_le)
    have "spaceLen (take ?n s) = ?n" by (rule spaceLen_prefix)
    then have "spaces (take ?n s)" using True le by (intro spaces_unit) simp_all
    then have "spaces (take ?n s @ pre)" using pre(2) by (rule spaces_append)
    moreover have "s = (take ?n s @ pre) @ trimLeft s"
    proof -
      have "trimLeft s = trimLeft (drop ?n s)" using True by (subst trimLeft.simps) simp
      then show ?thesis using pre(1) by (metis append.assoc append_take_drop_id)
    qed
    ultimately show ?thesis by blast
  next
    case False
    then have "trimLeft s = s" by (subst trimLeft.simps) simp
    then show ?thesis using spaces_Nil by (intro exI [of _ "[]"]) simp
  qed
qed

lemma trimLeft_no_space: "spaceLen (trimLeft s) = 0"
  by (induction s rule: trimLeft.induct) (subst trimLeft.simps, simp)

lemma spaceLenEnd_unit:
  "0 < spaceLenEnd s \<Longrightarrow> spaceLen (drop (length s - spaceLenEnd s) s) = spaceLenEnd s"
  by (auto simp: spaceLenEnd_def Let_def split: if_splits)

lemma trimRight_decomp: "\<exists>suf. s = trimRight s @ suf \<and> spaces suf"
proof (induction s rule: trimRight.induct)
  case (1 s)
  show ?case
  proof (cases "0 < spaceLenEnd s")
    case True
    let ?k = "length s - spaceLenEnd s"
    from "1.IH" [OF True] obtain suf where
      suf: "take ?k s = trimRight (take ?k s) @ suf" "spaces suf" by blast
    have le: "spaceLenEnd s \<le> length s" by (rule spaceLenEnd_le)
    have "spaceLen (drop ?k s) = spaceLenEnd s" using True by (rule spaceLenEnd_unit)
    then have "spaces (drop ?k s)" using True le by (intro spaces_unit) simp_all
    then have "spaces (suf @ drop ?k s)" using suf(2) by (intro spaces_append)
    moreover have "trimRight s = trimRight (take ?k s)"
      using True by (subst trimRight.simps) simp
    then have "s = trimRight s @ (suf @ drop ?k s)"
      using suf(1) by (metis append.assoc append_take_drop_id)
    ultimately show ?thesis by blast
  next
    case False
    then have "trimRight s = s" by (subst trimRight.simps) simp
    then show ?thesis using spaces_Nil by (intro exI [of _ "[]"]) simp
  qed
qed

lemma trimRight_no_space: "spaceLenEnd (trimRight s) = 0"
  by (induction s rule: trimRight.induct) (subst trimRight.simps, simp)

lemma trimRight_keeps_start: "spaceLen s = 0 \<Longrightarrow> spaceLen (trimRight s) = 0"
proof (induction s rule: trimRight.induct)
  case (1 s)
  show ?case
  proof (cases "0 < spaceLenEnd s")
    case True
    have "spaceLen (take (length s - spaceLenEnd s) s) = 0"
      using "1.prems" by (rule spaceLen_take)
    from "1.IH" [OF True this] True show ?thesis by (subst trimRight.simps) simp
  next
    case False
    then show ?thesis using "1.prems" by (subst trimRight.simps) simp
  qed
qed

text \<open>
  \<open>TrimSpace\<close> removes a prefix and a suffix made of white space, and what it returns
  neither starts nor ends with white space.
\<close>

lemma TrimSpace_removes:
  "\<exists>pre suf. spaces pre \<and> spaces suf \<and> s = pre @ TrimSpace s @ suf"
proof -
  obtain pre where pre: "s = pre @ trimLeft s" "spaces pre"
    using trimLeft_decomp by blast
  obtain suf where suf: "trimLeft s = trimRight (trimLeft s) @ suf" "spaces suf"
    using trimRight_decomp by blast
  have "s = pre @ TrimSpace s @ suf"
    using pre(1) suf(1) by (simp add: TrimSpace_def)
  then show ?thesis using pre(2) suf(2) by blast
qed

lemma TrimSpace_no_space: "spaceLen (TrimSpace s) = 0 \<and> spaceLenEnd (TrimSpace s) = 0"
  by (simp add: TrimSpace_def trimRight_no_space trimRight_keeps_start trimLeft_no_space)

section \<open>\<open>Scanf\<close> and \<open>TrimSpace\<close> on a line of one word\<close>

lemma asciiSpace_not_cont: "asciiSpace c \<Longrightarrow> \<not> cont c"
  by (auto simp: asciiSpace_def cont_def)

lemma space2_cont: "space2 c d \<Longrightarrow> \<not> cont c \<and> cont d"
  by (auto simp: space2_def cont_def)

lemma space3_cont: "space3 c d e \<Longrightarrow> \<not> cont c \<and> cont d \<and> cont e"
  by (auto simp: space3_def cont_def)

lemma spaceLen_ascii: "asciiSpace c \<Longrightarrow> spaceLen (c # cs) = 1"
  by (cases "c # cs" rule: spaceLen.cases) simp_all

lemma asciiSpace_newline: "asciiSpace newline"
  by (simp add: asciiSpace_def newline_def byte_def)

lemma unit_start: "0 < spaceLen u \<Longrightarrow> \<not> cont (hd u)"
  by (cases u rule: spaceLen.cases)
    (auto split: if_splits dest: asciiSpace_not_cont space2_cont space3_cont)

lemma no_straddle:
  assumes "a \<noteq> []" and "spaceLen a = 0" and "x = [] \<or> \<not> cont (hd x)"
  shows "spaceLen (a @ x) = 0"
proof (cases a rule: spaceLen.cases)
  case (1 c d e r)
  with assms(2) show ?thesis by simp
next
  case (2 c d)
  show ?thesis
  proof (cases x)
    case Nil
    with assms(2) show ?thesis by simp
  next
    case (Cons e r)
    with assms(3) have "\<not> space3 c d e" using space3_cont by auto
    with 2 Cons assms(2) show ?thesis by (simp split: if_splits)
  qed
next
  case (3 c)
  show ?thesis
  proof (cases x rule: spaceLen.cases)
    case (1 d e r)
    with assms(3) have "\<not> space2 c d" "\<not> space3 c d e"
      using space2_cont space3_cont by auto
    with 1 3 assms(2) show ?thesis by (simp split: if_splits)
  next
    case (2 d e)
    with assms(3) have "\<not> space2 c d" "\<not> space3 c d e"
      using space2_cont space3_cont by auto
    with 2 3 assms(2) show ?thesis by (simp split: if_splits)
  next
    case (3 d)
    with assms(3) have "\<not> space2 c d" using space2_cont by auto
    with 3 \<open>a = [c]\<close> assms(2) show ?thesis by (simp split: if_splits)
  next
    case 4
    with assms(2) show ?thesis by simp
  qed
next
  case 4
  with assms(1) show ?thesis by simp
qed

lemma skipSpace_blanks:
  "\<forall>u \<in> set us. blank u \<Longrightarrow> skipSpace (concat us @ y) = skipSpace y"
proof (induction us)
  case Nil
  then show ?case by simp
next
  case (Cons u us)
  then have u: "u \<noteq> []" "spaceLen u = length u" "hd u \<noteq> newline"
    by (simp_all add: blank_def)
  have "spaceLen (u @ concat us @ y) = length u"
    using u spaceLen_append [of u "concat us @ y"] by simp
  then have "skipSpace (u @ concat us @ y) = skipSpace (concat us @ y)"
    using u by (subst skipSpace.simps) simp
  then show ?case using Cons by simp
qed

lemma skipSpace_word: "y \<noteq> [] \<Longrightarrow> spaceLen y = 0 \<Longrightarrow> skipSpace y = Some y"
proof -
  assume y: "y \<noteq> []" "spaceLen y = 0"
  then have "hd y \<noteq> newline"
    using spaceLen_ascii [of "hd y" "tl y"] asciiSpace_newline by auto
  with y show ?thesis by (subst skipSpace.simps) simp
qed

lemma runeLen_le: "runeLen s \<le> length s"
  by (simp add: runeLen_def)

lemma runeLen_cases:
  assumes "0 < runeLen s"
  obtains (one) "1 \<le> length s" "rune1 (s ! 0)" "runeLen s = 1"
    | (two) "2 \<le> length s" "\<not> rune1 (s ! 0)" "rune2 (s ! 0) (s ! 1)" "runeLen s = 2"
    | (three) "3 \<le> length s" "\<not> rune1 (s ! 0)" "\<not> rune2 (s ! 0) (s ! 1)"
        "rune3 (s ! 0) (s ! 1) (s ! 2)" "runeLen s = 3"
    | (four) "4 \<le> length s" "\<not> rune1 (s ! 0)" "\<not> rune2 (s ! 0) (s ! 1)"
        "\<not> rune3 (s ! 0) (s ! 1) (s ! 2)" "rune4 (s ! 0) (s ! 1) (s ! 2) (s ! 3)" "runeLen s = 4"
  using assms by (auto simp: runeLen_def split: if_splits)

lemma runeLen_append:
  assumes "0 < runeLen a"
  shows "runeLen (a @ b) = runeLen a"
  using assms
proof (cases rule: runeLen_cases)
  case one
  then have "(a @ b) ! 0 = a ! 0" by (auto simp: nth_append)
  with one show ?thesis by (simp add: runeLen_def [of "a @ b"])
next
  case two
  then have "(a @ b) ! 0 = a ! 0" "(a @ b) ! 1 = a ! 1" by (auto simp: nth_append)
  with two show ?thesis by (simp add: runeLen_def [of "a @ b"])
next
  case three
  then have "(a @ b) ! 0 = a ! 0" "(a @ b) ! 1 = a ! 1" "(a @ b) ! 2 = a ! 2"
    by (auto simp: nth_append)
  with three show ?thesis by (simp add: runeLen_def [of "a @ b"])
next
  case four
  then have "(a @ b) ! 0 = a ! 0" "(a @ b) ! 1 = a ! 1" "(a @ b) ! 2 = a ! 2"
    "(a @ b) ! 3 = a ! 3"
    by (auto simp: nth_append)
  with four show ?thesis by (simp add: runeLen_def [of "a @ b"])
qed

lemma asciiSpace_rune: "asciiSpace c \<Longrightarrow> rune1 c"
  by (auto simp: asciiSpace_def rune1_def)

lemma space2_rune: "space2 c d \<Longrightarrow> \<not> rune1 c \<and> rune2 c d"
  by (auto simp: space2_def rune1_def rune2_def cont_def)

lemma space3_first: "space3 c d e \<Longrightarrow> 0xE1 \<le> byte c \<and> byte c \<le> 0xE3"
  by (auto simp: space3_def)

lemma space3_rune:
  assumes "space3 c d e"
  shows "\<not> rune1 c \<and> \<not> rune2 c d \<and> rune3 c d e"
proof -
  from assms have b: "0xE1 \<le> byte c" "byte c \<le> 0xE3" using space3_first by auto
  from assms have "cont d" "cont e" using space3_cont by auto
  with b have "rune3 c d e" by (simp add: rune3_def)
  moreover from b have "\<not> rune1 c" "\<not> rune2 c d" by (simp_all add: rune1_def rune2_def)
  ultimately show ?thesis by simp
qed

lemma runeLen_space: "0 < spaceLen x \<Longrightarrow> runeLen x = spaceLen x"
proof (cases x rule: spaceLen.cases)
  case (1 c d e r)
  assume "0 < spaceLen x"
  with 1 consider "asciiSpace c" | "\<not> asciiSpace c" "space2 c d"
    | "\<not> asciiSpace c" "\<not> space2 c d" "space3 c d e"
    by (auto split: if_splits)
  then show ?thesis
  proof cases
    case 1
    with \<open>x = c # d # e # r\<close> show ?thesis using asciiSpace_rune by (simp add: runeLen_def)
  next
    case 2
    with \<open>x = c # d # e # r\<close> show ?thesis using space2_rune [of c d] by (simp add: runeLen_def)
  next
    case 3
    with \<open>x = c # d # e # r\<close> show ?thesis using space3_rune [of c d e] by (simp add: runeLen_def)
  qed
next
  case (2 c d)
  assume "0 < spaceLen x"
  with 2 consider "asciiSpace c" | "\<not> asciiSpace c" "space2 c d"
    by (auto split: if_splits)
  then show ?thesis
  proof cases
    case 1
    with \<open>x = [c, d]\<close> show ?thesis using asciiSpace_rune by (simp add: runeLen_def)
  next
    case 2
    with \<open>x = [c, d]\<close> show ?thesis using space2_rune [of c d] by (simp add: runeLen_def)
  qed
next
  case (3 c)
  assume "0 < spaceLen x"
  with 3 have "asciiSpace c" by (auto split: if_splits)
  with 3 show ?thesis using asciiSpace_rune by (simp add: runeLen_def)
next
  case 4
  assume "0 < spaceLen x"
  with 4 show ?thesis by simp
qed

lemma rune3_cont: "rune3 c d e \<Longrightarrow> cont d \<and> cont e"
  by (auto simp: rune3_def cont_def)

lemma rune4_cont: "rune4 c d e f \<Longrightarrow> cont d \<and> cont e \<and> cont f"
  by (auto simp: rune4_def cont_def)

lemma rune_inner:
  assumes "0 < j" and "j < runeLen s"
  shows "cont (s ! j)"
proof -
  from assms have "0 < runeLen s" by simp
  then show ?thesis
  proof (cases rule: runeLen_cases)
    case one
    with assms show ?thesis by simp
  next
    case two
    with assms have "j = 1" by simp
    with two(3) show ?thesis by (simp add: rune2_def)
  next
    case three
    with assms have "j = 1 \<or> j = 2" by arith
    with three(4) show ?thesis using rune3_cont by auto
  next
    case four
    with assms have "j = 1 \<or> j = 2 \<or> j = 3" by arith
    with four(5) show ?thesis using rune4_cont by auto
  qed
qed

lemma word_no_space:
  "wordRunes tok \<Longrightarrow> j < length tok \<Longrightarrow> spaceLen (drop j tok) = 0"
proof (induction tok arbitrary: j rule: wordRunes.induct)
  case (1 s)
  from "1.prems" have ne: "s \<noteq> []" by auto
  with "1.prems"(1) have m: "0 < runeLen s" and sp: "spaceLen s = 0"
    and tail: "wordRunes (drop (runeLen s) s)"
    by (auto simp: wordRunes.simps [of s] split: if_splits)
  consider (zero) "j = 0" | (inner) "0 < j" "j < runeLen s" | (later) "runeLen s \<le> j"
    by arith
  then show ?case
  proof cases
    case zero
    with sp show ?thesis by simp
  next
    case inner
    then have "cont (s ! j)" by (rule rune_inner)
    moreover have "hd (drop j s) = s ! j"
      using "1.prems"(2) by (simp add: hd_drop_conv_nth)
    ultimately show ?thesis using unit_start [of "drop j s"] by auto
  next
    case later
    have "j - runeLen s < length (drop (runeLen s) s)"
      using later "1.prems"(2) by simp
    from "1.IH" [OF ne _ tail this] m sp
    have "spaceLen (drop (j - runeLen s) (drop (runeLen s) s)) = 0" by simp
    then show ?thesis using later by simp
  qed
qed

lemma token_word:
  "wordRunes tok \<Longrightarrow> z = [] \<or> 0 < spaceLen z \<Longrightarrow>
   token (tok @ z) = tok \<and> afterToken (tok @ z) = z"
proof (induction tok rule: wordRunes.induct)
  case (1 s)
  show ?case
  proof (cases "s = []")
    case True
    then show ?thesis using "1.prems"(2)
      by (auto simp: token.simps [of z] afterToken.simps [of z])
  next
    case False
    with "1.prems"(1) have m: "0 < runeLen s" and sp: "spaceLen s = 0"
      and tail: "wordRunes (drop (runeLen s) s)"
      by (auto simp: wordRunes.simps [of s] split: if_splits)
    have le: "runeLen s \<le> length s" by (rule runeLen_le)
    have "z = [] \<or> \<not> cont (hd z)" using "1.prems"(2) unit_start by auto
    with False sp have sp': "spaceLen (s @ z) = 0" by (intro no_straddle)
    have m': "runeLen (s @ z) = runeLen s" using m by (rule runeLen_append)
    from "1.IH" [OF False _ tail "1.prems"(2)] m sp
    have IH: "token (drop (runeLen s) s @ z) = drop (runeLen s) s"
      "afterToken (drop (runeLen s) s @ z) = z" by simp_all
    have "token (s @ z) = take (runeLen s) s @ token (drop (runeLen s) s @ z)"
      using False sp' m' m le by (subst token.simps) simp
    moreover have "afterToken (s @ z) = afterToken (drop (runeLen s) s @ z)"
      using False sp' m' m le by (subst afterToken.simps) simp
    ultimately show ?thesis using IH by simp
  qed
qed

lemma matchNewline_blanks:
  "\<forall>u \<in> set us. blank u \<Longrightarrow> matchNewline (concat us @ newline # r)"
proof (induction us)
  case Nil
  then show ?case by (subst matchNewline.simps) simp
next
  case (Cons u us)
  then have u: "u \<noteq> []" "spaceLen u = length u" "hd u \<noteq> newline"
    by (simp_all add: blank_def)
  have "spaceLen (u @ concat us @ newline # r) = length u"
    using u spaceLen_append [of u "concat us @ newline # r"] by simp
  then have "matchNewline (u @ concat us @ newline # r) = matchNewline (concat us @ newline # r)"
    using u by (subst matchNewline.simps) simp
  then show ?case using Cons by simp
qed

lemma trimLeft_blanks:
  "\<forall>u \<in> set us. blank u \<Longrightarrow> trimLeft (concat us @ y) = trimLeft y"
proof (induction us)
  case Nil
  then show ?case by simp
next
  case (Cons u us)
  then have u: "u \<noteq> []" "spaceLen u = length u"
    by (simp_all add: blank_def)
  have "spaceLen (u @ concat us @ y) = length u"
    using u spaceLen_append [of u "concat us @ y"] by simp
  then have "trimLeft (u @ concat us @ y) = trimLeft (concat us @ y)"
    using u by (subst trimLeft.simps) simp
  then show ?case using Cons by simp
qed

lemma spaceLenEnd_append_unit:
  assumes "u \<noteq> []" and "spaceLen u = length u"
  shows "spaceLenEnd (x @ u) = length u"
proof (cases u rule: spaceLen.cases)
  case (1 c d e r)
  with assms(2) have r: "r = []" and sp: "\<not> asciiSpace c" "\<not> space2 c d" "space3 c d e"
    by (auto split: if_splits)
  from sp(3) have "cont d" "cont e" using space3_cont by auto
  then have "\<not> asciiSpace d" "\<not> asciiSpace e" "\<not> space2 d e"
    using asciiSpace_not_cont space2_cont by auto
  with 1 r sp show ?thesis by (simp add: spaceLenEnd_def)
next
  case (2 c d)
  with assms(2) have sp: "\<not> asciiSpace c" "space2 c d" by (auto split: if_splits)
  then have "\<not> asciiSpace d" using asciiSpace_not_cont space2_cont by auto
  with 2 sp show ?thesis by (simp add: spaceLenEnd_def)
next
  case (3 c)
  with assms(2) have "asciiSpace c" by (auto split: if_splits)
  with 3 show ?thesis by (simp add: spaceLenEnd_def)
next
  case 4
  with assms(1) show ?thesis by simp
qed

lemma trimRight_blanks:
  "\<forall>u \<in> set us. blank u \<Longrightarrow> trimRight (x @ concat us) = trimRight x"
proof (induction us rule: rev_induct)
  case Nil
  then show ?case by simp
next
  case (snoc u us)
  then have u: "u \<noteq> []" "spaceLen u = length u"
    by (simp_all add: blank_def)
  have "spaceLenEnd ((x @ concat us) @ u) = length u"
    using u by (rule spaceLenEnd_append_unit)
  then have "trimRight ((x @ concat us) @ u) = trimRight (x @ concat us)"
    using u by (subst trimRight.simps) simp
  then show ?case using snoc by simp
qed

lemma trimRight_word:
  assumes "\<forall>j < length tok. spaceLen (drop j tok) = 0"
  shows "trimRight tok = tok"
proof -
  have "spaceLenEnd tok = 0"
    using assms by (auto simp: spaceLenEnd_def Let_def)
  then show ?thesis by (subst trimRight.simps) simp
qed

section \<open>\<open>parseLines\<close>\<close>

lemma parseLoop_ok:
  "\<forall>line \<in> set lines. 2 \<le> length line \<Longrightarrow> i + length lines = length ret \<Longrightarrow>
   parseLoop i lines ret =
     Inr (take i ret @
          map (\<lambda>line. \<lparr>question = TrimSpace (line ! 0), answer = TrimSpace (line ! 1)\<rparr>) lines)"
proof (induction lines arbitrary: i ret)
  case Nil
  then show ?case by simp
next
  case (Cons line rest)
  let ?x = "\<lparr>question = TrimSpace (line ! 0), answer = TrimSpace (line ! 1)\<rparr>"
  have len: "2 \<le> length line" using Cons.prems(1) by simp
  have i: "i < length ret" using Cons.prems(2) by simp
  have step: "parseLoop i (line # rest) ret = parseLoop (Suc i) rest (ret[i := ?x])"
  proof -
    have "index line 0 = Inr (line ! 0)" and "index line (Suc 0) = Inr (line ! Suc 0)"
      using len by (auto simp: index_def)
    then show ?thesis by simp
  qed
  have "parseLoop (Suc i) rest (ret[i := ?x]) =
          Inr (take (Suc i) (ret[i := ?x]) @
               map (\<lambda>line. \<lparr>question = TrimSpace (line ! 0), answer = TrimSpace (line ! 1)\<rparr>) rest)"
    using Cons.prems by (intro Cons.IH) auto
  moreover have "take (Suc i) (ret[i := ?x]) = take i ret @ [?x]"
    using i by (simp add: take_Suc_conv_app_nth)
  ultimately show ?case using step by simp
qed

lemma parseLoop_short:
  "\<exists>line \<in> set lines. length line < 2 \<Longrightarrow>
   parseLoop i lines ret = Inl (IndexOutOfRange 0 0) \<or>
   parseLoop i lines ret = Inl (IndexOutOfRange 1 1)"
proof (induction lines arbitrary: i ret)
  case Nil
  then show ?case by simp
next
  case (Cons line rest)
  show ?case
  proof (cases "length line < 2")
    case True
    then have "length line = 0 \<or> length line = 1" by arith
    then show ?thesis by (auto simp: index_def)
  next
    case False
    then have "\<exists>l \<in> set rest. length l < 2" using Cons.prems by auto
    from Cons.IH [OF this] False show ?thesis by (simp add: index_def)
  qed
qed

lemma parseLoop_take2: "parseLoop i (map (take 2) lines) ret = parseLoop i lines ret"
proof (induction lines arbitrary: i ret)
  case Nil
  then show ?case by simp
next
  case (Cons line rest)
  have a: "index (take 2 line) 0 = index line 0"
    by (auto simp: index_def)
  have b: "index (take 2 line) (Suc 0) = index line (Suc 0)"
    by (auto simp: index_def)
  show ?case using Cons.IH by (simp add: a b cong: sum.case_cong)
qed

lemma parseLines_map:
  assumes "\<forall>line \<in> set lines. 2 \<le> length line"
  shows "parseLines lines =
           Inr (map (\<lambda>line. \<lparr>question = TrimSpace (line ! 0), answer = TrimSpace (line ! 1)\<rparr>) lines)"
  using parseLoop_ok [OF assms, of 0 "replicate (length lines) \<lparr>question = [], answer = []\<rparr>"]
  by (simp add: parseLines_def)

text \<open>
  C9. \<open>parseLines\<close> reads only fields 0 and 1 of each row: it returns problems exactly
  when every row has at least two fields. With a shorter row it panics with an index out
  of range (index 0 of an empty row, index 1 of a row of one field), as on the one row
  \<open>[q]\<close>; the fields beyond the second never matter.
\<close>

theorem parseLines_defined_iff:
  "((\<exists>ps. parseLines lines = Inr ps) \<longleftrightarrow> (\<forall>line \<in> set lines. 2 \<le> length line)) \<and>
   ((\<exists>line \<in> set lines. length line < 2) \<longrightarrow>
      parseLines lines = Inl (IndexOutOfRange 0 0) \<or>
      parseLines lines = Inl (IndexOutOfRange 1 1)) \<and>
   parseLines (map (take 2) lines) = parseLines lines \<and>
   parseLines [[q]] = Inl (IndexOutOfRange 1 1)"
proof -
  have short: "parseLines lines = Inl (IndexOutOfRange 0 0) \<or>
               parseLines lines = Inl (IndexOutOfRange 1 1)"
    if "\<exists>line \<in> set lines. length line < 2"
    using parseLoop_short [OF that] by (simp add: parseLines_def)
  have "(\<exists>ps. parseLines lines = Inr ps) \<longleftrightarrow> (\<forall>line \<in> set lines. 2 \<le> length line)"
  proof
    assume "\<exists>ps. parseLines lines = Inr ps"
    then show "\<forall>line \<in> set lines. 2 \<le> length line"
      using short by (fastforce simp: not_less [symmetric])
  next
    assume "\<forall>line \<in> set lines. 2 \<le> length line"
    then show "\<exists>ps. parseLines lines = Inr ps"
      using parseLines_map by blast
  qed
  moreover have "parseLines (map (take 2) lines) = parseLines lines"
    by (simp add: parseLines_def parseLoop_take2)
  moreover have "parseLines [[q]] = Inl (IndexOutOfRange 1 1)"
    by (simp add: parseLines_def index_def)
  ultimately show ?thesis using short by blast
qed

theorem parseLines_defined_iff_witness:
  "(\<exists>ps. parseLines [[''2+2'', ''4''], [''3+3'', ''6'', ''x'']] = Inr ps) \<and>
   parseLines [[''2+2'', ''4''], [''3+3'']] = Inl (IndexOutOfRange 1 1) \<and>
   parseLines [[''2+2'', ''4''], []] = Inl (IndexOutOfRange 0 0)"
proof -
  have "\<exists>ps. parseLines [[''2+2'', ''4''], [''3+3'', ''6'', ''x'']] = Inr ps"
    using parseLines_defined_iff [of "[[''2+2'', ''4''], [''3+3'', ''6'', ''x'']]" "''q''"]
    by simp
  moreover have "parseLines [[''2+2'', ''4''], [''3+3'']] = Inl (IndexOutOfRange 1 1)"
    by (simp add: parseLines_def index_def)
  moreover have "parseLines [[''2+2'', ''4''], []] = Inl (IndexOutOfRange 0 0)"
    by (simp add: parseLines_def index_def)
  ultimately show ?thesis by blast
qed

text \<open>
  C10. When every row has at least two fields, \<open>parseLines\<close> returns one problem per
  row, in the order of the rows; the question and the answer of the \<open>i\<close>-th problem
  are \<open>TrimSpace\<close> of the first and second field of the \<open>i\<close>-th row: the field
  without a prefix and a suffix of white space, neither starting nor ending with white
  space.
\<close>

theorem parseLines_two_fields:
  assumes "\<forall>line \<in> set lines. 2 \<le> length line"
  shows "\<exists>ps. parseLines lines = Inr ps \<and> length ps = length lines \<and>
           (\<forall>i < length lines.
              question (ps ! i) = TrimSpace (lines ! i ! 0) \<and>
              answer (ps ! i) = TrimSpace (lines ! i ! 1) \<and>
              (\<exists>pre suf. spaces pre \<and> spaces suf \<and> lines ! i ! 0 = pre @ question (ps ! i) @ suf) \<and>
              (\<exists>pre suf. spaces pre \<and> spaces suf \<and> lines ! i ! 1 = pre @ answer (ps ! i) @ suf) \<and>
              spaceLen (question (ps ! i)) = 0 \<and> spaceLenEnd (question (ps ! i)) = 0 \<and>
              spaceLen (answer (ps ! i)) = 0 \<and> spaceLenEnd (answer (ps ! i)) = 0)"
proof -
  let ?ps = "map (\<lambda>line. \<lparr>question = TrimSpace (line ! 0), answer = TrimSpace (line ! 1)\<rparr>) lines"
  have "parseLines lines = Inr ?ps" using assms by (rule parseLines_map)
  moreover have "length ?ps = length lines" by simp
  moreover have "question (?ps ! i) = TrimSpace (lines ! i ! 0) \<and>
      answer (?ps ! i) = TrimSpace (lines ! i ! 1) \<and>
      (\<exists>pre suf. spaces pre \<and> spaces suf \<and> lines ! i ! 0 = pre @ question (?ps ! i) @ suf) \<and>
      (\<exists>pre suf. spaces pre \<and> spaces suf \<and> lines ! i ! 1 = pre @ answer (?ps ! i) @ suf) \<and>
      spaceLen (question (?ps ! i)) = 0 \<and> spaceLenEnd (question (?ps ! i)) = 0 \<and>
      spaceLen (answer (?ps ! i)) = 0 \<and> spaceLenEnd (answer (?ps ! i)) = 0"
    if "i < length lines" for i
    using that TrimSpace_removes [of "lines ! i ! 0"] TrimSpace_removes [of "lines ! i ! 1"]
      TrimSpace_no_space [of "lines ! i ! 0"] TrimSpace_no_space [of "lines ! i ! 1"]
    by simp
  ultimately show ?thesis by blast
qed

theorem parseLines_two_fields_witness:
  "\<exists>ps. parseLines [['' 2+2 '', ''4 '', ''x''], [''3+3'', ''  6'']] = Inr ps \<and>
     length ps = 2 \<and>
     question (ps ! 0) = ''2+2'' \<and> answer (ps ! 0) = ''4'' \<and>
     question (ps ! 1) = ''3+3'' \<and> answer (ps ! 1) = ''6''"
proof -
  have t: "TrimSpace '' 2+2 '' = ''2+2''" "TrimSpace ''4 '' = ''4''"
    "TrimSpace ''3+3'' = ''3+3''" "TrimSpace ''  6'' = ''6''"
    by code_simp+
  have "\<forall>line \<in> set [['' 2+2 '', ''4 '', ''x''], [''3+3'', ''  6'']]. 2 \<le> length line"
    by simp
  from parseLines_two_fields [OF this] obtain ps where
    ps: "parseLines [['' 2+2 '', ''4 '', ''x''], [''3+3'', ''  6'']] = Inr ps"
      "length ps = 2"
      "\<forall>i < 2. question (ps ! i) = TrimSpace ([['' 2+2 '', ''4 '', ''x''], [''3+3'', ''  6'']] ! i ! 0) \<and>
         answer (ps ! i) = TrimSpace ([['' 2+2 '', ''4 '', ''x''], [''3+3'', ''  6'']] ! i ! 1)"
    by auto
  have "question (ps ! 0) = ''2+2'' \<and> answer (ps ! 0) = ''4''"
    using ps(3) [rule_format, of 0] t by simp
  moreover have "question (ps ! 1) = ''3+3'' \<and> answer (ps ! 1) = ''6''"
    using ps(3) [rule_format, of 1] t by simp
  ultimately show ?thesis using ps(1,2) by blast
qed

section \<open>The loop\<close>

lemma reported_append: "reported (xs @ ys) = reported xs @ reported ys"
  by (induction xs rule: reported.induct) simp_all

lemma timers_append: "timers (xs @ ys) = timers xs @ timers ys"
  by (induction xs rule: timers.induct) simp_all

lemma prompts_append: "prompts (xs @ ys) = prompts xs @ prompts ys"
  by (induction xs rule: prompts.induct) simp_all

lemma select_cases:
  obtains (timer) "select fire b t0 tk = TimerC"
        | (answer) k where "select fire b t0 tk = AnswerCh k" "tk = Some k" "t0 + delay k \<le> fire"
proof (cases tk)
  case None
  then have "select fire b t0 tk = TimerC" by (simp add: select_def)
  then show ?thesis by (rule timer)
next
  case (Some k)
  show ?thesis
  proof (cases "select fire b t0 tk")
    case TimerC
    then show ?thesis by (rule timer)
  next
    case (AnswerCh k')
    with Some have "k' = k" "t0 + delay k \<le> fire"
      by (auto simp: select_def split: if_splits)
    with AnswerCh Some show ?thesis by (intro answer [of k]) simp_all
  qed
qed

declare problemLoop.simps(2) [simp del]

lemma loop_timer:
  assumes "select fire (pick i) (elapsed s) (case tasks of [] \<Rightarrow> None | k # _ \<Rightarrow> Some k) = TimerC"
  shows "problemLoop fire pick i (p # ps) tasks s = timeout fire (prompt i p s)"
  using assms by (simp add: problemLoop.simps(2) iteration_def prompt_def)

lemma loop_answer:
  assumes "select fire (pick i) (elapsed s) (case tasks of [] \<Rightarrow> None | k # _ \<Rightarrow> Some k) = AnswerCh k"
  shows "problemLoop fire pick i (p # ps) tasks s =
           problemLoop fire pick (Suc i) ps (tl tasks) (receive p k (prompt i p s))"
  using assms by (simp add: problemLoop.simps(2) iteration_def prompt_def)

lemma loop_correct:
  "correct s \<le> correct (problemLoop fire pick i ps tasks s) \<and>
   correct (problemLoop fire pick i ps tasks s) \<le> correct s + int (length ps)"
proof (induction ps arbitrary: i tasks s)
  case Nil
  then show ?case by simp
next
  case (Cons p ps)
  let ?tk = "case tasks of [] \<Rightarrow> None | k # _ \<Rightarrow> Some k"
  show ?case
  proof (cases rule: select_cases [of fire "pick i" "elapsed s" ?tk])
    case timer
    show ?thesis
      by (simp only: loop_timer [where pick = pick and i = i, OF timer]) (simp add: timeout_def prompt_def)
  next
    case (answer k)
    have "correct s \<le> correct (receive p k (prompt i p s)) \<and>
          correct (receive p k (prompt i p s)) \<le> correct s + 1"
      by (simp add: receive_def prompt_def)
    moreover note Cons.IH [where s = "receive p k (prompt i p s)" and i = "Suc i" and tasks = "tl tasks"]
    ultimately show ?thesis
      by (simp only: loop_answer [where pick = pick and i = i, OF answer(1)]) simp
  qed
qed

lemma loop_actions:
  "\<exists>ev. actions (problemLoop fire pick i ps tasks s) = actions s @ ev \<and>
        reported ev = [] \<and> timers ev = []"
proof (induction ps arbitrary: i tasks s)
  case Nil
  then show ?case by simp
next
  case (Cons p ps)
  let ?tk = "case tasks of [] \<Rightarrow> None | k # _ \<Rightarrow> Some k"
  show ?case
  proof (cases rule: select_cases [of fire "pick i" "elapsed s" ?tk])
    case timer
    show ?thesis
      by (simp only: loop_timer [where pick = pick and i = i, OF timer]) (simp add: timeout_def prompt_def)
  next
    case (answer k)
    let ?s' = "receive p k (prompt i p s)"
    from Cons.IH [where s = ?s' and i = "Suc i" and tasks = "tl tasks"] obtain ev where
      ev: "actions (problemLoop fire pick (Suc i) ps (tl tasks) ?s') = actions ?s' @ ev"
        "reported ev = []" "timers ev = []" by blast
    let ?ev = "PrintProblem (i + 1) (question p) # (if scanErr k then [PrintScanFailed] else []) @ ev"
    have "actions (problemLoop fire pick i (p # ps) tasks s) = actions s @ ?ev"
      using ev(1) by (simp only: loop_answer [where pick = pick and i = i, OF answer(1)]) (simp add: receive_def prompt_def)
    moreover have "reported ?ev = []" "timers ?ev = []"
      using ev(2,3) by (simp_all add: reported_append timers_append)
    ultimately show ?thesis by blast
  qed
qed

lemma loop_elapsed:
  "elapsed s \<le> fire \<Longrightarrow> elapsed (problemLoop fire pick i ps tasks s) \<le> fire"
proof (induction ps arbitrary: i tasks s)
  case Nil
  then show ?case by simp
next
  case (Cons p ps)
  let ?tk = "case tasks of [] \<Rightarrow> None | k # _ \<Rightarrow> Some k"
  show ?case
  proof (cases rule: select_cases [of fire "pick i" "elapsed s" ?tk])
    case timer
    show ?thesis
      using Cons.prems
      by (simp only: loop_timer [where pick = pick and i = i, OF timer])
        (simp add: timeout_def prompt_def)
  next
    case (answer k)
    have "elapsed (receive p k (prompt i p s)) \<le> fire"
      using answer(3) by (simp add: receive_def prompt_def)
    then show ?thesis
      by (simp only: loop_answer [where pick = pick and i = i, OF answer(1)]) (rule Cons.IH)
  qed
qed

lemma loop_no_ties:
  "\<forall>n < length tasks. elapsed s + sum_list (map delay (take (Suc n) tasks)) \<noteq> fire \<Longrightarrow>
   problemLoop fire pick1 i ps tasks s = problemLoop fire pick2 i ps tasks s"
proof (induction ps arbitrary: i tasks s)
  case Nil
  then show ?case by simp
next
  case (Cons p ps)
  show ?case
  proof (cases tasks)
    case Nil
    then show ?thesis by (simp add: problemLoop.simps(2) iteration_def select_def)
  next
    case (Cons k ks)
    have ne: "elapsed s + delay k \<noteq> fire"
      using Cons.prems [rule_format, of 0] Cons by simp
    then have sel: "select fire (pick1 i) (elapsed s) (Some k) = select fire (pick2 i) (elapsed s) (Some k)"
      by (simp add: select_def)
    have "\<forall>n < length ks. elapsed (receive p k (prompt i p s)) + sum_list (map delay (take (Suc n) ks)) \<noteq> fire"
    proof (intro allI impI)
      fix n assume "n < length ks"
      then show "elapsed (receive p k (prompt i p s)) + sum_list (map delay (take (Suc n) ks)) \<noteq> fire"
        using Cons.prems [rule_format, of "Suc n"] Cons
        by (simp add: receive_def prompt_def add.assoc)
    qed
    from Cons.IH [OF this]
    have IH: "problemLoop fire pick1 (Suc i) ps ks (receive p k (prompt i p s)) =
          problemLoop fire pick2 (Suc i) ps ks (receive p k (prompt i p s))" .
    then show ?thesis
    proof (cases rule: select_cases [of fire "pick2 i" "elapsed s" "Some k"])
      case timer
      with sel Cons show ?thesis by (simp add: problemLoop.simps(2) iteration_def)
    next
      case (answer k')
      with sel Cons IH show ?thesis by (simp add: problemLoop.simps(2) iteration_def)
    qed
  qed
qed

lemma loop_received:
  "length (prompts (actions s)) + Suc n
     < length (prompts (actions (problemLoop fire pick i ps tasks s))) \<Longrightarrow>
   n < length tasks \<and> elapsed s + sum_list (map delay (take (Suc n) tasks)) \<le> fire"
proof (induction ps arbitrary: i tasks s n)
  case Nil
  then show ?case by simp
next
  case (Cons p ps)
  let ?tk = "case tasks of [] \<Rightarrow> None | k # _ \<Rightarrow> Some k"
  show ?case
  proof (cases rule: select_cases [of fire "pick i" "elapsed s" ?tk])
    case timer
    from Cons.prems show ?thesis
      by (simp add: loop_timer [where pick = pick and i = i, OF timer]
          timeout_def prompt_def prompts_append)
  next
    case (answer k)
    let ?s' = "receive p k (prompt i p s)"
    from answer(2) obtain ks where tasks: "tasks = k # ks"
      by (cases tasks) simp_all
    have len: "length (prompts (actions ?s')) = Suc (length (prompts (actions s)))"
      by (simp add: receive_def prompt_def prompts_append)
    have el: "elapsed ?s' = elapsed s + delay k"
      by (simp add: receive_def prompt_def)
    have loop: "problemLoop fire pick i (p # ps) tasks s = problemLoop fire pick (Suc i) ps ks ?s'"
      using loop_answer [where pick = pick and i = i, OF answer(1)] tasks by simp
    show ?thesis
    proof (cases n)
      case 0
      then show ?thesis using answer(3) tasks by simp
    next
      case (Suc m)
      have "length (prompts (actions ?s')) + Suc m
              < length (prompts (actions (problemLoop fire pick (Suc i) ps ks ?s')))"
        using Cons.prems loop len Suc by simp
      from Cons.IH [OF this] show ?thesis
        using tasks Suc el by (simp add: add.assoc)
    qed
  qed
qed

lemma loop_exhausted:
  "PrintNewline \<notin> set (actions (problemLoop fire pick i ps tasks s)) \<Longrightarrow>
   length ps \<le> length tasks \<and>
   elapsed (problemLoop fire pick i ps tasks s) =
     elapsed s + sum_list (map delay (take (length ps) tasks))"
proof (induction ps arbitrary: i tasks s)
  case Nil
  then show ?case by simp
next
  case (Cons p ps)
  let ?tk = "case tasks of [] \<Rightarrow> None | k # _ \<Rightarrow> Some k"
  show ?case
  proof (cases rule: select_cases [of fire "pick i" "elapsed s" ?tk])
    case timer
    from Cons.prems show ?thesis
      by (simp add: loop_timer [where pick = pick and i = i, OF timer] timeout_def)
  next
    case (answer k)
    let ?s' = "receive p k (prompt i p s)"
    from answer(2) obtain ks where tasks: "tasks = k # ks"
      by (cases tasks) simp_all
    have el: "elapsed ?s' = elapsed s + delay k"
      by (simp add: receive_def prompt_def)
    have loop: "problemLoop fire pick i (p # ps) tasks s = problemLoop fire pick (Suc i) ps ks ?s'"
      using loop_answer [where pick = pick and i = i, OF answer(1)] tasks by simp
    have "PrintNewline \<notin> set (actions (problemLoop fire pick (Suc i) ps ks ?s'))"
      using Cons.prems loop by simp
    from Cons.IH [OF this] show ?thesis
      using tasks el loop by (simp add: add.assoc)
  qed
qed

lemma fireAt_seconds:
  assumes "0 \<le> sint timeLimit" and "sint timeLimit \<le> 9223372036"
  shows "fireAt (timerDuration timeLimit) = nat (sint timeLimit) * 1000000000"
proof -
  have "sint (timeLimit * 1000000000) =
          signed_take_bit (LENGTH(64) - 1) (sint timeLimit * sint (1000000000 :: 64 word))"
    by (rule sint_word_mult)
  moreover have "sint (1000000000 :: 64 word) = 1000000000" by simp
  moreover have "signed_take_bit (LENGTH(64) - 1) (sint timeLimit * 1000000000) =
                   sint timeLimit * 1000000000"
    using assms by (intro signed_take_bit_int_eq_self) simp_all
  ultimately have "sint (timeLimit * 1000000000) = sint timeLimit * 1000000000"
    by simp
  then show ?thesis using assms by (simp add: fireAt_def timerDuration_def nat_mult_distrib)
qed

lemma select_answer_iff:
  "select fire b t0 (Some k) =
     (if t0 + delay k < fire \<or> (t0 + delay k = fire \<and> \<not> b) then AnswerCh k else TimerC)"
  by (auto simp: select_def)

lemma answered_le: "answered fire pick i t0 n tasks \<le> n \<and> answered fire pick i t0 n tasks \<le> length tasks"
  by (induction fire pick i t0 n tasks rule: answered.induct) auto

lemma answered_min:
  "answered fire pick i t0 (min m n) tasks = min m (answered fire pick i t0 n tasks)"
proof (induction fire pick i t0 n tasks arbitrary: m rule: answered.induct)
  case (1 fire pick i t0 tasks)
  then show ?case by simp
next
  case (2 fire pick i t0 n)
  then show ?case by (cases "min m (Suc n)") simp_all
next
  case (3 fire pick i t0 n k ks)
  show ?case
  proof (cases m)
    case 0
    then show ?thesis by simp
  next
    case (Suc m')
    then have "min m (Suc n) = Suc (min m' n)" by simp
    then show ?thesis using 3 [of m'] Suc by simp
  qed
qed

lemma loop_matches:
  "correct (problemLoop fire pick i ps tasks s) =
     correct s + matches (take (answered fire pick i (elapsed s) (length ps) tasks) (zip ps tasks))"
proof (induction ps arbitrary: i tasks s)
  case Nil
  then show ?case by (simp add: matches_def)
next
  case (Cons p ps)
  show ?case
  proof (cases tasks)
    case Nil
    then show ?thesis
      by (simp add: problemLoop.simps(2) iteration_def select_def timeout_def prompt_def matches_def)
  next
    case (Cons k ks)
    show ?thesis
    proof (cases "elapsed s + delay k < fire \<or> (elapsed s + delay k = fire \<and> \<not> pick i)")
      case True
      let ?s' = "receive p k (prompt i p s)"
      have "problemLoop fire pick i (p # ps) tasks s = problemLoop fire pick (Suc i) ps ks ?s'"
        using True Cons by (simp add: problemLoop.simps(2) iteration_def select_answer_iff)
      moreover have "elapsed ?s' = elapsed s + delay k"
        "correct ?s' = correct s + (if sent k = answer p then 1 else 0)"
        by (simp_all add: receive_def prompt_def)
      moreover note Cons.IH [of "Suc i" ks ?s']
      ultimately show ?thesis using True Cons by (simp add: matches_def)
    next
      case False
      then have "select fire (pick i) (elapsed s) (Some k) = TimerC"
        by (auto simp: select_def)
      then have "problemLoop fire pick i (p # ps) tasks s = timeout fire (prompt i p s)"
        using Cons by (simp add: problemLoop.simps(2) iteration_def)
      then show ?thesis using False Cons by (auto simp: timeout_def prompt_def matches_def)
    qed
  qed
qed

lemma loop_step:
  "correct (problemLoop fire pick i (take (Suc m) ps) tasks s) =
     correct (problemLoop fire pick i (take m ps) tasks s) +
     (if m < answered fire pick i (elapsed s) (length ps) tasks \<and> sent (tasks ! m) = answer (ps ! m)
      then 1 else 0)"
proof -
  let ?a = "answered fire pick i (elapsed s) (length ps) tasks"
  let ?Z = "zip ps tasks"
  have a: "?a \<le> length ps" "?a \<le> length tasks" using answered_le by auto
  have pre: "correct (problemLoop fire pick i (take j ps) tasks s) =
               correct s + matches (take (min j ?a) ?Z)" for j
  proof -
    have "answered fire pick i (elapsed s) (length (take j ps)) tasks = min j ?a"
      using answered_min [of fire pick i "elapsed s" j "length ps" tasks]
      by (simp add: min.commute)
    moreover have "take (min j ?a) (zip (take j ps) tasks) = take (min j ?a) ?Z"
      by (simp add: take_zip min_def)
    ultimately show ?thesis using loop_matches [of fire pick i "take j ps" tasks s] by simp
  qed
  show ?thesis
  proof (cases "m < ?a")
    case True
    then have m: "m < length ?Z" "m < length ps" "m < length tasks" using a by simp_all
    have "take (min (Suc m) ?a) ?Z = take m ?Z @ [(ps ! m, tasks ! m)]"
      using True m by (simp add: min_def take_Suc_conv_app_nth nth_zip)
    moreover have "take (min m ?a) ?Z = take m ?Z" using True by (simp add: min_def)
    ultimately show ?thesis using True pre [of "Suc m"] pre [of m] by (simp add: matches_def)
  next
    case False
    then have "min (Suc m) ?a = ?a" "min m ?a = ?a" by simp_all
    then show ?thesis using False pre [of "Suc m"] pre [of m] by simp
  qed
qed

section \<open>The session\<close>

text \<open>
  C1. Every session reports one score, \<open>(correct, total)\<close>, with
  \<open>0 \<le> correct \<le> total\<close> and \<open>total\<close> the number of problems supplied, whatever
  the tasks, the limit and the choices of \<open>select\<close>: so both when the problems run
  out and when the timer ends the loop.
\<close>

theorem score_bounds:
  "reported (actions (runSession problems timeLimit tasks pick)) =
     [(correct (runSession problems timeLimit tasks pick), length problems)] \<and>
   0 \<le> correct (runSession problems timeLimit tasks pick) \<and>
   correct (runSession problems timeLimit tasks pick) \<le> int (length problems)"
proof -
  let ?d = "timerDuration timeLimit"
  let ?s = "problemLoop (fireAt ?d) pick 0 problems tasks (start ?d)"
  obtain ev where ev: "actions ?s = actions (start ?d) @ ev" "reported ev = []"
    using loop_actions by blast
  have c: "correct (runSession problems timeLimit tasks pick) = correct ?s"
    by (simp add: runSession_def finish_def Let_def)
  have "reported (actions (runSession problems timeLimit tasks pick)) = [(correct ?s, length problems)]"
    using ev by (simp add: runSession_def finish_def start_def reported_append Let_def)
  moreover have "0 \<le> correct ?s \<and> correct ?s \<le> int (length problems)"
    using loop_correct [of "start ?d" "fireAt ?d" pick 0 problems tasks]
    by (simp add: start_def)
  ultimately show ?thesis using c by simp
qed

theorem score_bounds_witness:
  "reported (actions (runSession
      [\<lparr>question = ''2+2'', answer = ''4''\<rparr>, \<lparr>question = ''3+3'', answer = ''6''\<rparr>] 10
      [\<lparr>delay = 5, sent = ''4'', scanErr = False\<rparr>, \<lparr>delay = 7, sent = ''6'', scanErr = False\<rparr>]
      timerFirst)) = [(2, 2)]"
proof -
  have "correct (runSession
      [\<lparr>question = ''2+2'', answer = ''4''\<rparr>, \<lparr>question = ''3+3'', answer = ''6''\<rparr>] 10
      [\<lparr>delay = 5, sent = ''4'', scanErr = False\<rparr>, \<lparr>delay = 7, sent = ''6'', scanErr = False\<rparr>]
      timerFirst) = 2"
    by (simp add: runSession_def finish_def start_def timerDuration_def fireAt_def
        problemLoop.simps(2) iteration_def select_def receive_def prompt_def)
  with score_bounds [of "[\<lparr>question = ''2+2'', answer = ''4''\<rparr>, \<lparr>question = ''3+3'', answer = ''6''\<rparr>]" 10
      "[\<lparr>delay = 5, sent = ''4'', scanErr = False\<rparr>, \<lparr>delay = 7, sent = ''6'', scanErr = False\<rparr>]"
      timerFirst]
  show ?thesis by simp
qed

text \<open>
  C7. The counter starts at 0 and never decreases. The \<open>m\<close>-th pass of the loop adds
  exactly one when the answer of problem \<open>m\<close> is received and is the very byte string
  of that problem's expected answer, and adds nothing otherwise (the timer ended the
  loop, or the answer differs, if only in the case of a letter). So the counter of the
  loop, and of the session, is the number of received answers that are the expected
  answer of their own problem.
\<close>

theorem correct_counter:
  "correct (start d) = 0 \<and>
   correct (snd (iteration fire b i p tk s)) =
     correct s +
     (case select fire b (elapsed s) tk of
        TimerC \<Rightarrow> 0
      | AnswerCh k \<Rightarrow> if sent k = answer p then 1 else 0) \<and>
   correct s \<le> correct (problemLoop fire pick i ps tasks s) \<and>
   correct (problemLoop fire pick i ps tasks s) =
     correct s + matches (take (answered fire pick i (elapsed s) (length ps) tasks) (zip ps tasks)) \<and>
   correct (problemLoop fire pick i (take (Suc m) ps) tasks s) =
     correct (problemLoop fire pick i (take m ps) tasks s) +
     (if m < answered fire pick i (elapsed s) (length ps) tasks \<and>
         sent (tasks ! m) = answer (ps ! m)
      then 1 else 0) \<and>
   correct (runSession problems timeLimit tasks pick) =
     matches (take (answered (fireAt (timerDuration timeLimit)) pick 0 0 (length problems) tasks)
                (zip problems tasks))"
proof -
  have "correct (start d) = 0" by (simp add: start_def)
  moreover have "correct (snd (iteration fire b i p tk s)) =
     correct s +
     (case select fire b (elapsed s) tk of
        TimerC \<Rightarrow> 0
      | AnswerCh k \<Rightarrow> if sent k = answer p then 1 else 0)"
    by (cases "select fire b (elapsed s) tk")
      (simp_all add: iteration_def timeout_def receive_def prompt_def)
  moreover have "correct s \<le> correct (problemLoop fire pick i ps tasks s)"
    using loop_correct by blast
  moreover note loop_matches [of fire pick i ps tasks s] loop_step [of fire pick i m ps tasks s]
  moreover have "correct (runSession problems timeLimit tasks pick) =
     matches (take (answered (fireAt (timerDuration timeLimit)) pick 0 0 (length problems) tasks)
                (zip problems tasks))"
    using loop_matches [of "fireAt (timerDuration timeLimit)" pick 0 problems tasks
        "start (timerDuration timeLimit)"]
    by (simp add: runSession_def finish_def start_def Let_def)
  ultimately show ?thesis by blast
qed

theorem correct_counter_witness:
  "correct (snd (iteration 10 True 0 \<lparr>question = ''capital'', answer = ''Paris''\<rparr>
      (Some \<lparr>delay = 3, sent = ''Paris'', scanErr = False\<rparr>) (start 0))) = 1 \<and>
   correct (snd (iteration 10 True 0 \<lparr>question = ''capital'', answer = ''Paris''\<rparr>
      (Some \<lparr>delay = 3, sent = ''paris'', scanErr = False\<rparr>) (start 0))) = 0 \<and>
   correct (snd (iteration 10 True 0 \<lparr>question = ''capital'', answer = ''Paris''\<rparr>
      (Some \<lparr>delay = 30, sent = ''Paris'', scanErr = False\<rparr>) (start 0))) = 0 \<and>
   correct (runSession
      [\<lparr>question = ''capital'', answer = ''Paris''\<rparr>, \<lparr>question = ''2+2'', answer = ''4''\<rparr>,
       \<lparr>question = ''3+3'', answer = ''6''\<rparr>] 1
      [\<lparr>delay = 300000000, sent = ''paris'', scanErr = False\<rparr>,
       \<lparr>delay = 300000000, sent = ''4'', scanErr = False\<rparr>,
       \<lparr>delay = 600000000, sent = ''6'', scanErr = False\<rparr>] timerFirst) = 1"
proof -
  have f: "fireAt (timerDuration 1) = 1000000000"
    by (simp add: fireAt_def timerDuration_def)
  show ?thesis
    using
      correct_counter [where fire = 10 and b = True and i = 0 and s = "start 0"
        and p = "\<lparr>question = ''capital'', answer = ''Paris''\<rparr>"
        and tk = "Some \<lparr>delay = 3, sent = ''Paris'', scanErr = False\<rparr>"]
      correct_counter [where fire = 10 and b = True and i = 0 and s = "start 0"
        and p = "\<lparr>question = ''capital'', answer = ''Paris''\<rparr>"
        and tk = "Some \<lparr>delay = 3, sent = ''paris'', scanErr = False\<rparr>"]
      correct_counter [where fire = 10 and b = True and i = 0 and s = "start 0"
        and p = "\<lparr>question = ''capital'', answer = ''Paris''\<rparr>"
        and tk = "Some \<lparr>delay = 30, sent = ''Paris'', scanErr = False\<rparr>"]
      correct_counter [where timeLimit = 1 and pick = timerFirst
        and problems = "[\<lparr>question = ''capital'', answer = ''Paris''\<rparr>,
          \<lparr>question = ''2+2'', answer = ''4''\<rparr>, \<lparr>question = ''3+3'', answer = ''6''\<rparr>]"
        and tasks = "[\<lparr>delay = 300000000, sent = ''paris'', scanErr = False\<rparr>,
          \<lparr>delay = 300000000, sent = ''4'', scanErr = False\<rparr>,
          \<lparr>delay = 600000000, sent = ''6'', scanErr = False\<rparr>]"]
    by (simp add: select_def start_def f matches_def numeral_3_eq_3)
qed

text \<open>
  C2. The timer is created once, as the first action of the session and so before any
  prompt, and no later action creates or resets one: the loop waits on the one instant
  \<open>fire\<close>. That instant bounds the session as a whole. The waits add up: the time
  elapsed never exceeds \<open>fire\<close>; an answer that is evaluated (the next problem is
  displayed, or the problems run out) arrived, counted from the creation of the timer,
  within \<open>fire\<close>, whatever its index. For a limit from 0 to 9223372036 seconds, where
  the product in nanoseconds fits 64 bits, \<open>fire\<close> is the limit itself.
\<close>

theorem single_deadline:
  "(let r = runSession problems timeLimit tasks pick; fire = fireAt (timerDuration timeLimit) in
    (\<exists>rest. actions r = NewTimer (sint (timerDuration timeLimit)) # rest \<and> timers rest = []) \<and>
    elapsed r \<le> fire \<and>
    (\<forall>n. Suc n < length (prompts (actions r)) \<longrightarrow>
       n < length tasks \<and> sum_list (map delay (take (Suc n) tasks)) \<le> fire) \<and>
    (PrintNewline \<notin> set (actions r) \<longrightarrow>
       length problems \<le> length tasks \<and>
       sum_list (map delay (take (length problems) tasks)) \<le> fire) \<and>
    (0 \<le> sint timeLimit \<and> sint timeLimit \<le> 9223372036 \<longrightarrow>
       fire = nat (sint timeLimit) * 1000000000))"
proof -
  let ?d = "timerDuration timeLimit"
  let ?fire = "fireAt ?d"
  let ?s = "problemLoop ?fire pick 0 problems tasks (start ?d)"
  let ?r = "runSession problems timeLimit tasks pick"
  have r: "?r = finish problems ?s" by (simp add: runSession_def Let_def)
  obtain ev where ev: "actions ?s = actions (start ?d) @ ev" "timers ev = []"
    using loop_actions by blast
  have a: "\<exists>rest. actions ?r = NewTimer (sint ?d) # rest \<and> timers rest = []"
  proof (intro exI conjI)
    show "actions ?r = NewTimer (sint ?d) # (ev @ [PrintScore (correct ?s) (length problems)])"
      using ev(1) by (simp add: r finish_def start_def)
    show "timers (ev @ [PrintScore (correct ?s) (length problems)]) = []"
      using ev(2) by (simp add: timers_append)
  qed
  have el: "elapsed ?r = elapsed ?s" by (simp add: r finish_def)
  have b: "elapsed ?r \<le> ?fire"
    using loop_elapsed [of "start ?d" ?fire pick 0 problems tasks] el by (simp add: start_def)
  have pr: "prompts (actions ?r) = prompts (actions ?s)"
    by (simp add: r finish_def prompts_append)
  have c: "n < length tasks \<and> sum_list (map delay (take (Suc n) tasks)) \<le> ?fire"
    if "Suc n < length (prompts (actions ?r))" for n
  proof -
    have "length (prompts (actions (start ?d))) + Suc n < length (prompts (actions ?s))"
      using that pr by (simp add: start_def)
    from loop_received [OF this] show ?thesis by (simp add: start_def)
  qed
  have d: "length problems \<le> length tasks \<and>
           sum_list (map delay (take (length problems) tasks)) \<le> ?fire"
    if "PrintNewline \<notin> set (actions ?r)"
  proof -
    have "PrintNewline \<notin> set (actions ?s)" using that by (simp add: r finish_def)
    from loop_exhausted [OF this] b el show ?thesis by (simp add: start_def)
  qed
  have e: "?fire = nat (sint timeLimit) * 1000000000"
    if "0 \<le> sint timeLimit \<and> sint timeLimit \<le> 9223372036"
    using that fireAt_seconds by blast
  show ?thesis
    unfolding Let_def using a b c d e by blast
qed

theorem single_deadline_witness:
  "elapsed (runSession
      [\<lparr>question = ''1+1'', answer = ''2''\<rparr>, \<lparr>question = ''2+2'', answer = ''4''\<rparr>,
       \<lparr>question = ''3+3'', answer = ''6''\<rparr>] 1
      [\<lparr>delay = 400000000, sent = ''2'', scanErr = False\<rparr>,
       \<lparr>delay = 400000000, sent = ''4'', scanErr = False\<rparr>,
       \<lparr>delay = 400000000, sent = ''6'', scanErr = False\<rparr>] answerFirst) \<le> 1000000000 \<and>
   reported (actions (runSession
      [\<lparr>question = ''1+1'', answer = ''2''\<rparr>, \<lparr>question = ''2+2'', answer = ''4''\<rparr>,
       \<lparr>question = ''3+3'', answer = ''6''\<rparr>] 1
      [\<lparr>delay = 400000000, sent = ''2'', scanErr = False\<rparr>,
       \<lparr>delay = 400000000, sent = ''4'', scanErr = False\<rparr>,
       \<lparr>delay = 400000000, sent = ''6'', scanErr = False\<rparr>] answerFirst)) = [(2, 3)]"
proof -
  let ?P = "[\<lparr>question = ''1+1'', answer = ''2''\<rparr>, \<lparr>question = ''2+2'', answer = ''4''\<rparr>,
       \<lparr>question = ''3+3'', answer = ''6''\<rparr>]"
  let ?T = "[\<lparr>delay = 400000000, sent = ''2'', scanErr = False\<rparr>,
       \<lparr>delay = 400000000, sent = ''4'', scanErr = False\<rparr>,
       \<lparr>delay = 400000000, sent = ''6'', scanErr = False\<rparr>]"
  have "fireAt (timerDuration 1) = 1000000000"
    by (simp add: fireAt_def timerDuration_def)
  with single_deadline [of ?P 1 ?T answerFirst]
  have "elapsed (runSession ?P 1 ?T answerFirst) \<le> 1000000000"
    by (simp add: Let_def)
  moreover have "reported (actions (runSession ?P 1 ?T answerFirst)) = [(2, 3)]"
    by (simp add: runSession_def finish_def start_def timerDuration_def fireAt_def
      problemLoop.simps(2) iteration_def select_def receive_def prompt_def timeout_def
      reported_append)
  ultimately show ?thesis by blast
qed

text \<open>
  C3. In whatever state \<open>s\<close> the loop reaches problem \<open>p\<close>: when no answer comes, or
  the timer fires before the answer arrives (or at the same instant, and \<open>select\<close>
  takes the timer), the session shows the prompt of \<open>p\<close>, ends the line and reports at
  once. The counter is the one of \<open>s\<close>, the remaining problems \<open>ps\<close> are neither
  displayed nor evaluated, and the remaining tasks are not looked at.
\<close>

theorem deadline_first_stops:
  assumes "tasks = [] \<or> fire < elapsed s + delay (hd tasks) \<or>
           (fire = elapsed s + delay (hd tasks) \<and> pick i)"
  shows "finish problems (problemLoop fire pick i (p # ps) tasks s) =
           s\<lparr>elapsed := max (elapsed s) fire,
             actions := actions s @
               [PrintProblem (i + 1) (question p), PrintNewline,
                PrintScore (correct s) (length problems)]\<rparr>"
proof -
  have "select fire (pick i) (elapsed s) (case tasks of [] \<Rightarrow> None | k # _ \<Rightarrow> Some k) = TimerC"
    using assms by (cases tasks) (auto simp: select_def)
  then have "problemLoop fire pick i (p # ps) tasks s = timeout fire (prompt i p s)"
    by (rule loop_timer)
  then show ?thesis by (simp add: finish_def timeout_def prompt_def)
qed

theorem deadline_first_stops_witness:
  "runSession [\<lparr>question = ''2+2'', answer = ''4''\<rparr>, \<lparr>question = ''3+3'', answer = ''6''\<rparr>] 0
     [\<lparr>delay = 5, sent = ''4'', scanErr = False\<rparr>, \<lparr>delay = 7, sent = ''6'', scanErr = False\<rparr>]
     answerFirst =
   \<lparr>elapsed = 0, correct = 0,
     actions = [NewTimer 0, PrintProblem 1 ''2+2'', PrintNewline, PrintScore 0 2]\<rparr>"
proof -
  let ?tasks = "[\<lparr>delay = 5, sent = ''4'', scanErr = False\<rparr>, \<lparr>delay = 7, sent = ''6'', scanErr = False\<rparr>]"
  have "?tasks = [] \<or> 0 < elapsed (start 0) + delay (hd ?tasks) \<or>
        (0 = elapsed (start 0) + delay (hd ?tasks) \<and> answerFirst 0)"
    by (simp add: start_def)
  from deadline_first_stops [where pick = answerFirst and i = 0, OF this] show ?thesis
    by (simp add: runSession_def timerDuration_def fireAt_def start_def)
qed

text \<open>
  C6, as stated, fails when the first answer is ready at the instant the first
  \<open>select\<close> is entered: with limit 0 the timer is ready too, \<open>select\<close> may take the
  answer, and the session goes on to evaluate it and to display the next question.
\<close>

theorem zero_limit_counterexample:
  "runSession [\<lparr>question = ''2+2'', answer = ''4''\<rparr>, \<lparr>question = ''3+3'', answer = ''6''\<rparr>] 0
     [\<lparr>delay = 0, sent = ''4'', scanErr = False\<rparr>, \<lparr>delay = 0, sent = ''6'', scanErr = False\<rparr>]
     answerFirst =
   \<lparr>elapsed = 0, correct = 2,
     actions = [NewTimer 0, PrintProblem 1 ''2+2'', PrintProblem 2 ''3+3'', PrintScore 2 2]\<rparr>"
  by (simp add: runSession_def finish_def start_def timerDuration_def fireAt_def
      problemLoop.simps(2) iteration_def select_def receive_def prompt_def timeout_def
      answerFirst_def)

text \<open>
  C6, as amended. With a limit of 0, or any limit whose duration is not positive, the
  timer has fired when the first \<open>select\<close> is entered. When the first answer takes
  some time to come or never comes, or is ready at that very instant and \<open>select\<close>
  takes the timer, a session over a non-empty problem list displays the first question
  only, evaluates no answer and reports 0 out of the number of problems.
\<close>

theorem zero_limit:
  assumes "timeLimit = 0 \<or> sint (timerDuration timeLimit) \<le> 0"
    and "tasks = [] \<or> 0 < delay (hd tasks) \<or> pick 0"
  shows "runSession (p # ps) timeLimit tasks pick =
           \<lparr>elapsed = 0, correct = 0,
             actions = [NewTimer (sint (timerDuration timeLimit)), PrintProblem 1 (question p),
                        PrintNewline, PrintScore 0 (length (p # ps))]\<rparr>"
proof -
  let ?d = "timerDuration timeLimit"
  have "sint ?d \<le> 0" using assms(1) by (auto simp: timerDuration_def)
  then have fire: "fireAt ?d = 0" by (simp add: fireAt_def)
  have "select (fireAt ?d) (pick 0) (elapsed (start ?d))
          (case tasks of [] \<Rightarrow> None | k # _ \<Rightarrow> Some k) = TimerC"
    using assms(2) fire by (cases tasks) (auto simp: select_def start_def)
  then have "problemLoop (fireAt ?d) pick 0 (p # ps) tasks (start ?d) =
               timeout (fireAt ?d) (prompt 0 p (start ?d))"
    by (rule loop_timer)
  then show ?thesis
    using fire by (simp add: runSession_def finish_def timeout_def prompt_def start_def)
qed

theorem zero_limit_witness:
  "runSession [\<lparr>question = ''2+2'', answer = ''4''\<rparr>, \<lparr>question = ''3+3'', answer = ''6''\<rparr>] 0
     [\<lparr>delay = 1, sent = ''4'', scanErr = False\<rparr>] answerFirst =
   \<lparr>elapsed = 0, correct = 0,
     actions = [NewTimer 0, PrintProblem 1 ''2+2'', PrintNewline, PrintScore 0 2]\<rparr>"
  using zero_limit [where timeLimit = 0 and pick = answerFirst
      and tasks = "[\<lparr>delay = 1, sent = ''4'', scanErr = False\<rparr>]"
      and p = "\<lparr>question = ''2+2'', answer = ''4''\<rparr>"
      and ps = "[\<lparr>question = ''3+3'', answer = ''6''\<rparr>]"]
  by (simp add: timerDuration_def)

text \<open>
  C8, as stated, fails when an answer becomes ready at the instant the timer fires:
  \<open>select\<close> then takes either case, and two runs on the same problems, timed
  answers and limit report different scores.
\<close>

theorem tie_counterexample:
  "reported (actions (runSession [\<lparr>question = ''2+2'', answer = ''4''\<rparr>] 1
      [\<lparr>delay = 1000000000, sent = ''4'', scanErr = False\<rparr>] timerFirst)) = [(0, 1)] \<and>
   reported (actions (runSession [\<lparr>question = ''2+2'', answer = ''4''\<rparr>] 1
      [\<lparr>delay = 1000000000, sent = ''4'', scanErr = False\<rparr>] answerFirst)) = [(1, 1)]"
  by (simp add: runSession_def finish_def start_def timerDuration_def fireAt_def
      problemLoop.simps(2) iteration_def select_def receive_def prompt_def timeout_def
      timerFirst_def answerFirst_def)

text \<open>
  C8, as amended. When no answer becomes ready at the very instant the timer fires, the
  session does not depend on the choices of \<open>select\<close>: the same problems, timed
  answers and limit give the same state, hence the same reported score.
\<close>

theorem deterministic_without_ties:
  assumes "\<forall>n < length tasks.
             sum_list (map delay (take (Suc n) tasks)) \<noteq> fireAt (timerDuration timeLimit)"
  shows "runSession problems timeLimit tasks pick1 = runSession problems timeLimit tasks pick2"
proof -
  have "\<forall>n < length tasks.
          elapsed (start (timerDuration timeLimit)) + sum_list (map delay (take (Suc n) tasks))
            \<noteq> fireAt (timerDuration timeLimit)"
    using assms by (simp add: start_def)
  from loop_no_ties [OF this, of pick1 0 problems pick2] show ?thesis
    by (simp add: runSession_def Let_def)
qed

theorem deterministic_without_ties_witness:
  "runSession [\<lparr>question = ''2+2'', answer = ''4''\<rparr>] 1
      [\<lparr>delay = 999999999, sent = ''4'', scanErr = False\<rparr>] timerFirst =
   runSession [\<lparr>question = ''2+2'', answer = ''4''\<rparr>] 1
      [\<lparr>delay = 999999999, sent = ''4'', scanErr = False\<rparr>] answerFirst"
proof -
  have "\<forall>n < length [\<lparr>delay = 999999999, sent = ''4'', scanErr = False\<rparr>].
          sum_list (map delay (take (Suc n) [\<lparr>delay = 999999999, sent = ''4'', scanErr = False\<rparr>]))
            \<noteq> fireAt (timerDuration 1)"
    by (simp add: timerDuration_def fireAt_def)
  from deterministic_without_ties [OF this] show ?thesis .
qed

text \<open>
  C4, as stated, fails: a read that fails still resolves. On the line \<open>4 5\<close> the scan
  stores \<open>4\<close> and reports an error; the goroutine prints its diagnostic and sends
  \<open>4\<close>, which scores against the expected answer \<open>4\<close>, and the session ends because
  the problems ran out. At the end of input every scan fails at once with the empty
  string, and the session again ends without the timer.
\<close>

theorem failed_scan_counterexample:
  "answerTask 1 (''4 5'' @ [newline]) = \<lparr>delay = 1, sent = ''4'', scanErr = True\<rparr> \<and>
   runSession [\<lparr>question = ''2+2'', answer = ''4''\<rparr>] 10
      [answerTask 1 (''4 5'' @ [newline])] timerFirst =
     \<lparr>elapsed = 1, correct = 1,
       actions = [NewTimer 10000000000, PrintProblem 1 ''2+2'', PrintScanFailed, PrintScore 1 1]\<rparr> \<and>
   answerTask 1 [] = \<lparr>delay = 1, sent = [], scanErr = True\<rparr> \<and>
   runSession [\<lparr>question = ''2+2'', answer = ''4''\<rparr>, \<lparr>question = ''3+3'', answer = ''6''\<rparr>] 10
      [answerTask 1 [], answerTask 1 []] timerFirst =
     \<lparr>elapsed = 2, correct = 0,
       actions = [NewTimer 10000000000, PrintProblem 1 ''2+2'', PrintScanFailed,
                  PrintProblem 2 ''3+3'', PrintScanFailed, PrintScore 0 2]\<rparr>"
proof -
  have a: "answerTask 1 (''4 5'' @ [newline]) = \<lparr>delay = 1, sent = ''4'', scanErr = True\<rparr>"
    by code_simp
  have b: "answerTask 1 [] = \<lparr>delay = 1, sent = [], scanErr = True\<rparr>"
    by code_simp
  show ?thesis
    unfolding a b
    by (simp add: runSession_def finish_def start_def timerDuration_def fireAt_def
      problemLoop.simps(2) iteration_def select_def receive_def prompt_def timeout_def)
qed

text \<open>
  C4, as amended. When the read of a question fails and its task is ready before the
  timer fires, the diagnostic is printed, the value left in \<open>answer\<close> is received and
  compared with the expected answer like any other (it scores exactly when the two are
  equal), and the loop goes on with the next problem.
\<close>

theorem failed_scan_is_delivered:
  assumes "scanErr k" and "elapsed s + delay k < fire"
  shows "problemLoop fire pick i (p # ps) (k # tasks) s =
           problemLoop fire pick (Suc i) ps tasks
             (s\<lparr>elapsed := elapsed s + delay k,
                correct := (if sent k = answer p then correct s + 1 else correct s),
                actions := actions s @ [PrintProblem (i + 1) (question p), PrintScanFailed]\<rparr>)"
proof -
  have "select fire (pick i) (elapsed s) (case k # tasks of [] \<Rightarrow> None | k # _ \<Rightarrow> Some k) = AnswerCh k"
    using assms(2) by (simp add: select_def)
  from loop_answer [where pick = pick and i = i, OF this] show ?thesis
    using assms(1) by (simp add: receive_def prompt_def)
qed

theorem failed_scan_is_delivered_witness:
  "problemLoop 10 timerFirst 0 [\<lparr>question = ''2+2'', answer = ''4''\<rparr>]
     [\<lparr>delay = 1, sent = [], scanErr = True\<rparr>] (start 0) =
   \<lparr>elapsed = 1, correct = 0,
     actions = [NewTimer 0, PrintProblem 1 ''2+2'', PrintScanFailed]\<rparr>"
proof -
  have "scanErr \<lparr>delay = 1, sent = [], scanErr = True\<rparr>" by simp
  moreover have "elapsed (start 0) + delay \<lparr>delay = 1, sent = [], scanErr = True\<rparr> < 10"
    by (simp add: start_def)
  ultimately show ?thesis
    using failed_scan_is_delivered [of "\<lparr>delay = 1, sent = [], scanErr = True\<rparr>" "start 0" 10
        timerFirst 0 "\<lparr>question = ''2+2'', answer = ''4''\<rparr>" "[]" "[]"]
    by (simp add: start_def)
qed

text \<open>
  C5, as stated, fails: the submitted line is not normalised as the expected answer was.
  \<open>TrimSpace\<close> keeps a byte that is not valid UTF-8, \<open>Scanf\<close> stores U+FFFD in its
  place. The one-word line made of the byte FF does not score against the expected answer
  FF, and it scores against the expected answer U+FFFD.
\<close>

theorem invalid_byte_counterexample:
  "TrimSpace [CHR 0xFF] = [CHR 0xFF] \<and>
   Scanf [CHR 0xFF, newline] = ([CHR 0xEF, CHR 0xBF, CHR 0xBD], False) \<and>
   correct (receive \<lparr>question = ''q'', answer = TrimSpace [CHR 0xFF]\<rparr>
     (answerTask 1 [CHR 0xFF, newline]) (start 0)) = 0 \<and>
   TrimSpace [CHR 0xEF, CHR 0xBF, CHR 0xBD] = [CHR 0xEF, CHR 0xBF, CHR 0xBD] \<and>
   correct (receive \<lparr>question = ''q'', answer = TrimSpace [CHR 0xEF, CHR 0xBF, CHR 0xBD]\<rparr>
     (answerTask 1 [CHR 0xFF, newline]) (start 0)) = 1"
proof -
  have a: "TrimSpace [CHR 0xFF] = [CHR 0xFF]"
    "TrimSpace [CHR 0xEF, CHR 0xBF, CHR 0xBD] = [CHR 0xEF, CHR 0xBF, CHR 0xBD]"
    by code_simp+
  have b: "Scanf [CHR 0xFF, newline] = ([CHR 0xEF, CHR 0xBF, CHR 0xBD], False)"
    by code_simp
  show ?thesis
    using a b by (simp add: receive_def answerTask_def start_def)
qed

text \<open>
  C5, as amended. For a submitted line of one word in valid UTF-8 (no white-space code
  point in it) with white space other than newlines before and after it, \<open>Scanf\<close>
  delivers that word without an error, and the word is \<open>TrimSpace\<close> of the line: the
  answer counts exactly when the trimmed line is the expected answer, so \<open>4\<close>
  followed by a space counts for the expected answer \<open>4\<close>.
\<close>

theorem one_token_answer:
  assumes "tok \<noteq> []" and "wordRunes tok"
    and "\<forall>u \<in> set pre. blank u" and "\<forall>u \<in> set suf. blank u"
  shows "Scanf (concat pre @ tok @ concat suf @ newline # r) = (tok, False) \<and>
         TrimSpace (concat pre @ tok @ concat suf) = tok \<and>
         correct (receive p (answerTask d (concat pre @ tok @ concat suf @ newline # r)) s) =
           (if TrimSpace (concat pre @ tok @ concat suf) = answer p then correct s + 1
            else correct s)"
proof -
  let ?z = "concat suf @ newline # r"
  have z: "?z \<noteq> []" "\<not> cont (hd ?z)" "0 < spaceLen ?z"
  proof -
    show "?z \<noteq> []" by simp
    show "0 < spaceLen ?z"
    proof (cases suf)
      case Nil
      then show ?thesis using spaceLen_ascii [OF asciiSpace_newline] by simp
    next
      case (Cons u us)
      with assms(4) have "u \<noteq> []" "spaceLen u = length u" by (simp_all add: blank_def)
      then show ?thesis using Cons spaceLen_append [of u "concat us @ newline # r"] by simp
    qed
    then show "\<not> cont (hd ?z)" by (rule unit_start)
  qed
  have nosp: "\<forall>j < length tok. spaceLen (drop j tok) = 0"
    using assms(2) word_no_space by blast
  have start: "spaceLen (tok @ y) = 0" if "y = [] \<or> \<not> cont (hd y)" for y
    using that assms(1) nosp [rule_format, of 0] by (intro no_straddle) simp_all
  have "skipSpace (concat pre @ tok @ ?z) = Some (tok @ ?z)"
    using assms(1,3) start [of ?z] z(2) by (simp add: skipSpace_blanks skipSpace_word)
  moreover have "token (tok @ ?z) = tok \<and> afterToken (tok @ ?z) = ?z"
    using assms(2) z(3) by (intro token_word) simp_all
  moreover have "matchNewline ?z" using assms(4) by (rule matchNewline_blanks)
  ultimately have scan: "Scanf (concat pre @ tok @ ?z) = (tok, False)"
    using assms(1) by (simp add: Scanf_def)
  have "trimLeft (concat pre @ tok @ concat suf) = trimLeft (tok @ concat suf)"
    using assms(3) by (rule trimLeft_blanks)
  moreover have "spaceLen (tok @ concat suf) = 0"
  proof (cases suf)
    case Nil
    then show ?thesis using start [of "[]"] by simp
  next
    case (Cons u us)
    with assms(4) have "u \<noteq> []" "spaceLen u = length u" by (simp_all add: blank_def)
    then have "\<not> cont (hd (concat suf))" using Cons unit_start [of u] by simp
    then show ?thesis using start by simp
  qed
  then have "trimLeft (tok @ concat suf) = tok @ concat suf"
    by (subst trimLeft.simps) simp
  moreover have "trimRight (tok @ concat suf) = tok"
    using nosp assms(4) by (simp add: trimRight_blanks trimRight_word)
  ultimately have trim: "TrimSpace (concat pre @ tok @ concat suf) = tok"
    by (simp add: TrimSpace_def)
  show ?thesis
    using scan trim by (simp add: receive_def answerTask_def)
qed

theorem one_token_answer_witness:
  "Scanf (''4 '' @ [newline]) = (''4'', False) \<and> TrimSpace ''4 '' = ''4'' \<and>
   correct (receive \<lparr>question = ''2+2'', answer = ''4''\<rparr>
     (answerTask 1 (''4 '' @ [newline])) (start 0)) = 1"
proof -
  have "''4'' \<noteq> []" by simp
  moreover have "wordRunes ''4''"
    by (simp add: wordRunes.simps [of "''4''"] wordRunes.simps [of "[]"]
        runeLen_def rune1_def asciiSpace_def byte_def)
  moreover have "\<forall>u \<in> set ([] :: string list). blank u" by simp
  moreover have "\<forall>u \<in> set ['' '']. blank u"
    by (simp add: blank_def asciiSpace_def byte_def newline_def)
  ultimately show ?thesis
    using one_token_answer [of "''4''" "[]" "['' '']" "[]"
        "\<lparr>question = ''2+2'', answer = ''4''\<rparr>" 1 "start 0"]
    by (simp add: start_def)
qed

end
